theory Spec2Isabelle
  imports Main "HOL-Library.AList" "HOL-Library.Sublist"
begin

section \<open>Data model of \<^verbatim>\<open>Wappalyzer.py\<close>\<close>

text \<open>
  Python exceptions that the modelled functions can raise.  \<open>ReError\<close> stands for
  \<^verbatim>\<open>re.error\<close>.
\<close>

datatype py_error = KeyError | AttributeError | ValueError | TypeError | ReError

text \<open>
  The module \<^verbatim>\<open>re\<close> is a library, not part of the repository: it is a parameter of
  the model.  An engine compiles an expression (the flag says whether \<^verbatim>\<open>re.I\<close> is
  given; \<open>None\<close> is \<^verbatim>\<open>re.error\<close>), searches a string and lists all occurrences
  as \<^verbatim>\<open>re.findall\<close> does: a bare string per occurrence when the expression has at
  most one group, a tuple of strings otherwise.
\<close>

datatype re_match = MStr string | MTuple "string list"

record 'rx re_engine =
  re_compile :: "bool \<Rightarrow> string \<Rightarrow> 'rx option"
  re_search :: "'rx \<Rightarrow> string \<Rightarrow> bool"
  re_findall :: "'rx \<Rightarrow> string \<Rightarrow> re_match list"

text \<open>
  Values of the signature document (JSON) and of the dictionaries built from it.  A
  Python \<^verbatim>\<open>dict\<close> keeps insertion order and has unique keys: it is an association
  list maintained with \<^const>\<open>AList.update\<close> (overwrite in place, else append).
\<close>

datatype 'rx pyval =
    PStr string
  | PInt int
  | PBool bool
  | PNone
  | PList "'rx pyval list"
  | PDict "(string \<times> 'rx pyval) list"
  | PRegex 'rx

type_synonym 'rx pattern = "(string \<times> 'rx pyval) list"

text \<open>
  A prepared technology entry.  The last four fields are the keys that the detection
  phase adds to the entry; \<open>None\<close> means that the key is absent.
\<close>

record 'rx app =
  cats :: "int list option"
  url :: "'rx pattern list"
  html :: "'rx pattern list"
  script :: "'rx pattern list"
  headers :: "(string \<times> 'rx pattern) list"
  meta :: "(string \<times> 'rx pattern) list"
  implies :: "string list"
  detected :: "bool option"
  confidence :: "(string \<times> int) list option"
  confidenceTotal :: "int option"
  versions :: "string list option"

type_synonym 'rx apps = "(string \<times> 'rx app) list"

record webpage =
  wp_url :: string
  wp_html :: string
  wp_headers :: "string \<rightharpoonup> string"
  wp_scripts :: "string list"
  wp_meta :: "string \<rightharpoonup> string"

section \<open>Built-in string operations\<close>

text \<open>
  Strings are lists of 8-bit characters: a character is a code point below 256.  The
  operations below are the behaviour, on such strings, of the Python built-ins the
  source calls (\<^verbatim>\<open>str.lower\<close>, \<^verbatim>\<open>str\<close> of an integer, \<^verbatim>\<open>str.split\<close>,
  \<^verbatim>\<open>str.join\<close>, \<^verbatim>\<open>str.replace\<close>, \<^verbatim>\<open>int\<close> of a string).
\<close>

definition backslash :: char where
  "backslash = CHR 0x5C"

text \<open>
  \<^verbatim>\<open>str.lower\<close>: below 256 the upper-case letters are \<^verbatim>\<open>A\<close> to \<^verbatim>\<open>Z\<close> and the code
  points 0xC0 to 0xDE without the multiplication sign 0xD7; each has its lower-case
  letter 32 places further.
\<close>

definition is_upper :: "char \<Rightarrow> bool" where
  "is_upper c =
     ((65 \<le> (of_char c :: nat) \<and> (of_char c :: nat) \<le> 90)
      \<or> (192 \<le> (of_char c :: nat) \<and> (of_char c :: nat) \<le> 222 \<and> (of_char c :: nat) \<noteq> 215))"

definition lower_char :: "char \<Rightarrow> char" where
  "lower_char c = (if is_upper c then char_of ((of_char c :: nat) + 32) else c)"

definition py_lower :: "string \<Rightarrow> string" where
  "py_lower s = map lower_char s"

definition digit_char :: "nat \<Rightarrow> char" where
  "digit_char d = char_of (48 + d)"

fun str_nat :: "nat \<Rightarrow> string" where
  "str_nat n = (if n < 10 then [digit_char n] else str_nat (n div 10) @ [digit_char (n mod 10)])"

declare str_nat.simps [simp del]

definition str_int :: "int \<Rightarrow> string" where
  "str_int i = (if i < 0 then CHR ''-'' # str_nat (nat (- i)) else str_nat (nat i))"

text \<open>
  \<^verbatim>\<open>s.split(sep)\<close> for a non-empty separator: \<open>cur\<close> is the segment being read.
  (Python refuses an empty separator; the source only splits on a backslash followed
  by a semicolon, and on a colon.)
\<close>

function split_from :: "string \<Rightarrow> string \<Rightarrow> string \<Rightarrow> string list" where
  "split_from sep cur [] = [cur]"
| "split_from sep cur (c # cs) =
     (if sep \<noteq> [] \<and> prefix sep (c # cs)
      then cur # split_from sep [] (drop (length sep) (c # cs))
      else split_from sep (cur @ [c]) cs)"
  by pat_completeness auto
termination
  by (relation "measure (\<lambda>(sep, cur, s). length s)") (auto simp: neq_Nil_conv)

definition py_split :: "string \<Rightarrow> string \<Rightarrow> string list" where
  "py_split sep s = split_from sep [] s"

fun py_join :: "string \<Rightarrow> string list \<Rightarrow> string" where
  "py_join sep [] = []"
| "py_join sep [x] = x"
| "py_join sep (x # y # ys) = x @ sep @ py_join sep (y # ys)"

text \<open>
  \<^verbatim>\<open>s.replace(old, new)\<close>: every non-overlapping occurrence of \<open>old\<close>, from
  the left.  For an empty \<open>old\<close> Python puts \<open>new\<close> before every character and at
  the end.
\<close>

function replace_from :: "string \<Rightarrow> string \<Rightarrow> string \<Rightarrow> string" where
  "replace_from old new [] = []"
| "replace_from old new (c # cs) =
     (if old \<noteq> [] \<and> prefix old (c # cs)
      then new @ replace_from old new (drop (length old) (c # cs))
      else c # replace_from old new cs)"
  by pat_completeness auto
termination
  by (relation "measure (\<lambda>(old, new, s). length s)") (auto simp: neq_Nil_conv)

definition py_replace :: "string \<Rightarrow> string \<Rightarrow> string \<Rightarrow> string" where
  "py_replace old new s =
     (if old = [] then concat (map (\<lambda>c. new @ [c]) s) @ new else replace_from old new s)"

text \<open>
  \<^verbatim>\<open>int(s)\<close> for a string, base 10: surrounding white space is dropped, one sign is
  allowed, then digits, where single underscores may stand between digits.  \<open>None\<close>
  is \<^verbatim>\<open>ValueError\<close>.  The white space that \<^verbatim>\<open>int\<close> drops is tab, line feed,
  vertical tab, form feed, carriage return and space, and of the code points from 128
  on the two that are white space, 0x85 and 0xA0; the separators 0x1C to 0x1F are
  refused.  More than 4300 digits are refused (the interpreter's default limit
  \<^verbatim>\<open>sys.int_max_str_digits\<close>).
\<close>

definition is_space :: "char \<Rightarrow> bool" where
  "is_space c = ((9 \<le> (of_char c :: nat) \<and> (of_char c :: nat) \<le> 13)
                 \<or> (of_char c :: nat) = 32
                 \<or> (of_char c :: nat) = 133
                 \<or> (of_char c :: nat) = 160)"

definition is_digit :: "char \<Rightarrow> bool" where
  "is_digit c = (48 \<le> (of_char c :: nat) \<and> (of_char c :: nat) \<le> 57)"

definition py_strip :: "string \<Rightarrow> string" where
  "py_strip s = rev (dropWhile is_space (rev (dropWhile is_space s)))"

text \<open>The digits after the first one: \<open>acc\<close> is the value read so far.\<close>

fun int_digits :: "int \<Rightarrow> string \<Rightarrow> int option" where
  "int_digits acc [] = Some acc"
| "int_digits acc [c] = (if is_digit c then Some (acc * 10 + int (of_char c) - 48) else None)"
| "int_digits acc (c # d # cs) =
     (if is_digit c then int_digits (acc * 10 + int (of_char c) - 48) (d # cs)
      else if c = CHR ''_'' \<and> is_digit d then int_digits acc (d # cs)
      else None)"

definition int_max_str_digits :: nat where
  "int_max_str_digits = 4300"

definition int_unsigned :: "string \<Rightarrow> int option" where
  "int_unsigned s = (case s of [] \<Rightarrow> None
     | c # cs \<Rightarrow>
         if is_digit c \<and> length (filter is_digit (c # cs)) \<le> int_max_str_digits
         then int_digits 0 (c # cs) else None)"

definition int_of_str :: "string \<Rightarrow> int option" where
  "int_of_str s =
     (case py_strip s of
        [] \<Rightarrow> None
      | c # cs \<Rightarrow>
          if c = CHR ''-'' then map_option uminus (int_unsigned cs)
          else if c = CHR ''+'' then int_unsigned cs
          else int_unsigned (c # cs))"

section \<open>Pattern compiler: \<^verbatim>\<open>_prepare_pattern\<close>\<close>

text \<open>
  The segments after the first: \<^verbatim>\<open>attr = expression.split(':')\<close>; with more than one
  part, the first part is the key and the others, joined by colons again, the value.
\<close>

fun prepare_attrs :: "'rx pattern \<Rightarrow> string list \<Rightarrow> 'rx pattern" where
  "prepare_attrs attrs [] = attrs"
| "prepare_attrs attrs (expression # rest) =
     (let attr = py_split '':'' expression
      in prepare_attrs
           (if length attr > 1
            then AList.update (hd attr) (PStr (py_join '':'' (tl attr))) attrs
            else attrs) rest)"

text \<open>
  \<^verbatim>\<open>pattern.split\<close> exists on strings only (\<^verbatim>\<open>AttributeError\<close> otherwise).  The
  first segment is stored under \<^verbatim>\<open>'string'\<close> and compiled with \<^verbatim>\<open>re.I\<close>; on
  \<^verbatim>\<open>re.error\<close> the never-matching expression is compiled instead.
\<close>

definition never_matching :: string where
  "never_matching = ''(?!x)x''"

definition prepare_pattern :: "'rx re_engine \<Rightarrow> 'rx pyval \<Rightarrow> py_error + 'rx pattern" where
  "prepare_pattern E pattern =
     (case pattern of
        PStr s \<Rightarrow>
          (case py_split [backslash, CHR '';''] s of
             [] \<Rightarrow> Inr []
           | expression # rest \<Rightarrow>
               (case (case re_compile E True expression of
                        Some r \<Rightarrow> Some r
                      | None \<Rightarrow> re_compile E False never_matching) of
                  None \<Rightarrow> Inl ReError
                | Some r \<Rightarrow>
                    Inr (prepare_attrs [(''string'', PStr expression), (''regex'', PRegex r)] rest)))
      | _ \<Rightarrow> Inl AttributeError)"

section \<open>Signature store: \<^verbatim>\<open>_prepare_app\<close>\<close>

text \<open>
  \<^verbatim>\<open>_prepare_app\<close> works on the entry as the document gives it: a dictionary of
  arbitrary values.  A list comprehension stops at the first exception.
\<close>

fun map_result :: "('a \<Rightarrow> py_error + 'b) \<Rightarrow> 'a list \<Rightarrow> py_error + 'b list" where
  "map_result f [] = Inr []"
| "map_result f (x # xs) =
     (case f x of
        Inl e \<Rightarrow> Inl e
      | Inr y \<Rightarrow> (case map_result f xs of Inl e \<Rightarrow> Inl e | Inr ys \<Rightarrow> Inr (y # ys)))"

text \<open>\<^verbatim>\<open>Ensure these keys' values are lists\<close>\<close>

definition ensure_list :: "string \<Rightarrow> (string \<times> 'rx pyval) list \<Rightarrow> (string \<times> 'rx pyval) list" where
  "ensure_list key app =
     (case map_of app key of
        None \<Rightarrow> AList.update key (PList []) app
      | Some (PList l) \<Rightarrow> app
      | Some v \<Rightarrow> AList.update key (PList [v]) app)"

text \<open>\<^verbatim>\<open>Ensure these keys exist\<close>\<close>

definition ensure_dict :: "string \<Rightarrow> (string \<times> 'rx pyval) list \<Rightarrow> (string \<times> 'rx pyval) list" where
  "ensure_dict key app =
     (case map_of app key of
        None \<Rightarrow> AList.update key (PDict []) app
      | Some v \<Rightarrow> app)"

text \<open>\<^verbatim>\<open>Ensure the 'meta' key is a dict\<close>\<close>

definition ensure_meta :: "(string \<times> 'rx pyval) list \<Rightarrow> py_error + (string \<times> 'rx pyval) list" where
  "ensure_meta app =
     (case map_of app ''meta'' of
        None \<Rightarrow> Inl KeyError
      | Some (PDict d) \<Rightarrow> Inr app
      | Some obj \<Rightarrow> Inr (AList.update ''meta'' (PDict [(''generator'', obj)]) app))"

text \<open>
  \<^verbatim>\<open>app[key] = {k.lower(): v for k, v in list(obj.items())}\<close>; only a dictionary has
  \<^verbatim>\<open>items\<close>.
\<close>

definition lower_keys :: "string \<Rightarrow> (string \<times> 'rx pyval) list \<Rightarrow> py_error + (string \<times> 'rx pyval) list" where
  "lower_keys key app =
     (case map_of app key of
        None \<Rightarrow> Inl KeyError
      | Some (PDict obj) \<Rightarrow>
          Inr (AList.update key
                 (PDict (fold (\<lambda>(k, v) d. AList.update (py_lower k) v d) obj [])) app)
      | Some _ \<Rightarrow> Inl AttributeError)"

text \<open>
  \<^verbatim>\<open>app[key] = [self._prepare_pattern(pattern) for pattern in app[key]]\<close>
\<close>

definition prepare_list :: "'rx re_engine \<Rightarrow> string \<Rightarrow> (string \<times> 'rx pyval) list
    \<Rightarrow> py_error + (string \<times> 'rx pyval) list" where
  "prepare_list E key app =
     (case map_of app key of
        None \<Rightarrow> Inl KeyError
      | Some (PList ps) \<Rightarrow>
          (case map_result (prepare_pattern E) ps of
             Inl e \<Rightarrow> Inl e
           | Inr attrs \<Rightarrow> Inr (AList.update key (PList (map PDict attrs)) app))
      | Some _ \<Rightarrow> Inl TypeError)"

text \<open>
  \<^verbatim>\<open>for name, pattern in list(obj.items()): obj[name] = self._prepare_pattern(obj[name])\<close>
\<close>

definition prepare_dict :: "'rx re_engine \<Rightarrow> string \<Rightarrow> (string \<times> 'rx pyval) list
    \<Rightarrow> py_error + (string \<times> 'rx pyval) list" where
  "prepare_dict E key app =
     (case map_of app key of
        None \<Rightarrow> Inl KeyError
      | Some (PDict obj) \<Rightarrow>
          (case map_result
                  (\<lambda>(name, pattern).
                     case prepare_pattern E pattern of
                       Inl e \<Rightarrow> Inl e
                     | Inr attrs \<Rightarrow> Inr (name, PDict attrs)) obj of
             Inl e \<Rightarrow> Inl e
           | Inr obj1 \<Rightarrow> Inr (AList.update key (PDict obj1) app))
      | Some _ \<Rightarrow> Inl AttributeError)"

definition and_then :: "py_error + 'a \<Rightarrow> ('a \<Rightarrow> py_error + 'b) \<Rightarrow> py_error + 'b" where
  "and_then r f = (case r of Inl e \<Rightarrow> Inl e | Inr x \<Rightarrow> f x)"

text \<open>
  The first four blocks of \<^verbatim>\<open>_prepare_app\<close> bring the entry into shape; the last
  two compile the patterns.
\<close>

definition normalize_shape :: "(string \<times> 'rx pyval) list \<Rightarrow> py_error + (string \<times> 'rx pyval) list" where
  "normalize_shape app =
     and_then (ensure_meta
                 (fold ensure_dict [''headers'', ''meta'']
                    (fold ensure_list [''url'', ''html'', ''script'', ''implies''] app)))
       (\<lambda>app. and_then (lower_keys ''headers'' app) (lower_keys ''meta''))"

definition compile_patterns :: "'rx re_engine \<Rightarrow> (string \<times> 'rx pyval) list
    \<Rightarrow> py_error + (string \<times> 'rx pyval) list" where
  "compile_patterns E app =
     and_then (prepare_list E ''url'' app)
       (\<lambda>app. and_then (prepare_list E ''html'' app)
       (\<lambda>app. and_then (prepare_list E ''script'' app)
       (\<lambda>app. and_then (prepare_dict E ''headers'' app)
       (\<lambda>app. prepare_dict E ''meta'' app))))"

definition prepare_app :: "'rx re_engine \<Rightarrow> (string \<times> 'rx pyval) list
    \<Rightarrow> py_error + (string \<times> 'rx pyval) list" where
  "prepare_app E app = and_then (normalize_shape app) (compile_patterns E)"

section \<open>Version resolver\<close>

text \<open>
  The search for the ternary operator,
  \<^verbatim>\<open>re.search(re.compile('\\\\' + str(index + 1) + '\\?([^:]+):(.*)$', re.I), version)\<close>.
  The expression is fixed by the source, so its matching is written out: at a position
  where a backslash, the decimal number and a question mark stand, group 1 is the
  longest run of characters other than a colon (not empty), a colon follows, and group
  2 is the rest of the line, which has to end the string or stand before its final
  newline.  The result is (group 0, group 1, group 2) of the leftmost match.
\<close>

definition ternary_at :: "string \<Rightarrow> string \<Rightarrow> (string \<times> string \<times> string) option" where
  "ternary_at marker s =
     (if prefix marker s then
        (let r = drop (length marker) s;
             g1 = takeWhile (\<lambda>c. c \<noteq> CHR '':'') r;
             r1 = dropWhile (\<lambda>c. c \<noteq> CHR '':'') r
         in if g1 = [] \<or> r1 = [] then None
            else (let g2 = takeWhile (\<lambda>c. c \<noteq> CHR 0x0A) (tl r1);
                      r2 = dropWhile (\<lambda>c. c \<noteq> CHR 0x0A) (tl r1)
                  in if r2 = [] \<or> r2 = [CHR 0x0A]
                     then Some (marker @ g1 @ '':'' @ g2, g1, g2) else None))
      else None)"

fun ternary_from :: "string \<Rightarrow> string \<Rightarrow> (string \<times> string \<times> string) option" where
  "ternary_from marker [] = None"
| "ternary_from marker (c # cs) =
     (case ternary_at marker (c # cs) of
        Some g \<Rightarrow> Some g
      | None \<Rightarrow> ternary_from marker cs)"

definition ternary_search :: "nat \<Rightarrow> string \<Rightarrow> (string \<times> string \<times> string) option" where
  "ternary_search index version = ternary_from (backslash # str_nat (index + 1) @ ''?'') version"

text \<open>
  The body of \<^verbatim>\<open>for index, match in enumerate(matches)\<close>: the ternary operator is
  replaced by its first branch when the group is not empty and by its second one
  otherwise; then the back references to the group are replaced by the group.
\<close>

definition ternary_step :: "nat \<Rightarrow> string \<Rightarrow> string \<Rightarrow> string" where
  "ternary_step index match version =
     (case ternary_search index version of
        Some (g0, g1, g2) \<Rightarrow> py_replace g0 (if match \<noteq> [] then g1 else g2) version
      | None \<Rightarrow> version)"

definition substitute :: "nat \<Rightarrow> string \<Rightarrow> string \<Rightarrow> string" where
  "substitute index match version =
     py_replace (backslash # str_nat (index + 1)) match (ternary_step index match version)"

fun substitute_all :: "nat \<Rightarrow> string list \<Rightarrow> string \<Rightarrow> string" where
  "substitute_all index [] version = version"
| "substitute_all index (match # matches) version =
     substitute_all (index + 1) matches (substitute index match version)"

text \<open>\<^verbatim>\<open>if isinstance(matches, str): matches = [(matches)]\<close>\<close>

fun groups_of :: "re_match \<Rightarrow> string list" where
  "groups_of (MStr s) = [s]"
| "groups_of (MTuple ms) = ms"

definition resolve_version :: "string \<Rightarrow> re_match \<Rightarrow> string" where
  "resolve_version template matches = substitute_all 0 (groups_of matches) template"

text \<open>The end of the loop body over \<^verbatim>\<open>allmatches\<close>: a new, non-empty version is kept.\<close>

definition add_version :: "string \<Rightarrow> 'rx app \<Rightarrow> 'rx app" where
  "add_version version app =
     (if version \<noteq> [] then
        (case versions app of
           None \<Rightarrow> app\<lparr>versions := Some [version]\<rparr>
         | Some vs \<Rightarrow> if version \<notin> set vs then app\<lparr>versions := Some (vs @ [version])\<rparr> else app)
      else app)"

text \<open>
  \<^verbatim>\<open>_sort_app_versions\<close> is the comparison; \<^verbatim>\<open>sorted\<close> with the key class of
  \<^verbatim>\<open>_cmp_to_key\<close> only calls \<^verbatim>\<open>__lt__\<close>, that is, \<open>sort_app_versions a b < 0\<close>,
  and is stable: the versions are sorted by their length, equal lengths keeping their
  order.
\<close>

definition sort_app_versions :: "string \<Rightarrow> string \<Rightarrow> int" where
  "sort_app_versions version_a version_b = int (length version_a) - int (length version_b)"

fun insert_version :: "string \<Rightarrow> string list \<Rightarrow> string list" where
  "insert_version v [] = [v]"
| "insert_version v (w # ws) =
     (if sort_app_versions w v < 0 \<or> sort_app_versions w v = 0
      then w # insert_version v ws else v # w # ws)"

definition sorted_versions :: "string list \<Rightarrow> string list" where
  "sorted_versions vs = foldl (\<lambda>acc v. insert_version v acc) [] vs"

definition set_app_version :: "'rx app \<Rightarrow> 'rx app" where
  "set_app_version app =
     (case versions app of
        None \<Rightarrow> app
      | Some vs \<Rightarrow> app\<lparr>versions := Some (sorted_versions vs)\<rparr>)"

section \<open>Match engine: \<^verbatim>\<open>_set_detected_app\<close> and \<^verbatim>\<open>_has_app\<close>\<close>

text \<open>
  The functions below change the entry (and the pattern, a dictionary shared with the
  entry) in place and may raise.  Each returns the changed objects together with the
  exception, if any, so that what was written before an exception is kept.
\<close>

text \<open>\<^verbatim>\<open>int(x)\<close> on the value of a pattern attribute.\<close>

fun py_int :: "'rx pyval \<Rightarrow> py_error + int" where
  "py_int (PStr s) = (case int_of_str s of None \<Rightarrow> Inl ValueError | Some n \<Rightarrow> Inr n)"
| "py_int (PInt n) = Inr n"
| "py_int (PBool b) = Inr (if b then 1 else 0)"
| "py_int _ = Inl TypeError"

text \<open>\<^verbatim>\<open>pattern['regex'].search(value)\<close>\<close>

definition py_search :: "'rx re_engine \<Rightarrow> 'rx pattern \<Rightarrow> string \<Rightarrow> py_error + bool" where
  "py_search E pattern v =
     (case map_of pattern ''regex'' of
        None \<Rightarrow> Inl KeyError
      | Some (PRegex r) \<Rightarrow> Inr (re_search E r v)
      | Some _ \<Rightarrow> Inl AttributeError)"

text \<open>
  \<^verbatim>\<open>re.findall(pattern['regex'], value)\<close>; the module function also takes an
  expression as a string, which it compiles without flags.
\<close>

definition py_findall :: "'rx re_engine \<Rightarrow> 'rx pattern \<Rightarrow> string \<Rightarrow> py_error + re_match list" where
  "py_findall E pattern v =
     (case map_of pattern ''regex'' of
        None \<Rightarrow> Inl KeyError
      | Some (PRegex r) \<Rightarrow> Inr (re_findall E r v)
      | Some (PStr s) \<Rightarrow>
          (case re_compile E False s of
             None \<Rightarrow> Inl ReError
           | Some r \<Rightarrow> Inr (re_findall E r v))
      | Some _ \<Rightarrow> Inl TypeError)"

text \<open>
  The weight of a pattern: 100 without the attribute \<^verbatim>\<open>confidence\<close>, else
  \<^verbatim>\<open>int(pattern['confidence'])\<close>.
\<close>

definition pattern_weight :: "'rx pattern \<Rightarrow> py_error + int" where
  "pattern_weight pattern =
     (case map_of pattern ''confidence'' of
        None \<Rightarrow> Inr 100
      | Some c \<Rightarrow> py_int c)"

text \<open>\<^verbatim>\<open>pattern['string']\<close>, as an operand of the concatenation that builds the label.\<close>

definition pattern_string :: "'rx pattern \<Rightarrow> py_error + string" where
  "pattern_string pattern =
     (case map_of pattern ''string'' of
        None \<Rightarrow> Inl KeyError
      | Some (PStr s) \<Rightarrow> Inr s
      | Some _ \<Rightarrow> Inl TypeError)"

text \<open>
  The block \<^verbatim>\<open>Dectect version number\<close>: with a version attribute, every occurrence
  found by \<^verbatim>\<open>findall\<close> gives a version, and the versions are sorted at the end.
\<close>

definition detect_version ::
  "'rx re_engine \<Rightarrow> 'rx pattern \<Rightarrow> string \<Rightarrow> 'rx app \<Rightarrow> 'rx app \<times> py_error option" where
  "detect_version E pattern v app =
     (case map_of pattern ''version'' of
        None \<Rightarrow> (app, None)
      | Some ver \<Rightarrow>
          (case py_findall E pattern v of
             Inl e \<Rightarrow> (app, Some e)
           | Inr allmatches \<Rightarrow>
               (case ver of
                  PStr template \<Rightarrow>
                    (set_app_version
                       (fold (\<lambda>matches. add_version (resolve_version template matches))
                          allmatches app), None)
                | _ \<Rightarrow>
                    if allmatches = [] then (set_app_version app, None)
                    else (app, Some TypeError))))"

definition label :: "string \<Rightarrow> string \<Rightarrow> string \<Rightarrow> string" where
  "label app_type key s = app_type @ '' '' @ (if key \<noteq> [] then key @ '' '' else key) @ s"

definition set_detected_app ::
  "'rx re_engine \<Rightarrow> string \<Rightarrow> 'rx app \<Rightarrow> string \<Rightarrow> 'rx pattern \<Rightarrow> string \<Rightarrow> string
     \<Rightarrow> ('rx app \<times> 'rx pattern) \<times> py_error option" where
  "set_detected_app E app_name app app_type pattern v key =
     (let conf = (case confidence app of None \<Rightarrow> [] | Some c \<Rightarrow> c);
          app1 = app\<lparr>detected := Some True, confidence := Some conf\<rparr>
      in case pattern_weight pattern of
           Inl e \<Rightarrow> ((app1, pattern), Some e)
         | Inr w \<Rightarrow>
             (let pattern1 = AList.update ''confidence'' (PInt w) pattern
              in case pattern_string pattern1 of
                   Inl e \<Rightarrow> ((app1, pattern1), Some e)
                 | Inr s \<Rightarrow>
                     (case detect_version E pattern1 v
                             (app1\<lparr>confidence :=
                                Some (AList.update (label app_type key s) w conf)\<rparr>) of
                        (app2, r) \<Rightarrow> ((app2, pattern1), r))))"

text \<open>
  One pattern against a list of values: the inner loop
  \<^verbatim>\<open>for script in webpage.scripts\<close>; for the facets \<^verbatim>\<open>url\<close> and \<^verbatim>\<open>html\<close>
  the list is the one value tested.  \<open>mark\<close> says whether the loop body has the
  assignment \<^verbatim>\<open>has_app = True\<close>: it has for every facet but \<^verbatim>\<open>url\<close>.
\<close>

fun values_loop ::
  "'rx re_engine \<Rightarrow> string \<Rightarrow> string \<Rightarrow> bool \<Rightarrow> string list
     \<Rightarrow> 'rx app \<times> 'rx pattern \<times> bool \<Rightarrow> ('rx app \<times> 'rx pattern \<times> bool) \<times> py_error option" where
  "values_loop E app_name app_type mark [] st = (st, None)"
| "values_loop E app_name app_type mark (v # vs) (app, pattern, has) =
     (case py_search E pattern v of
        Inl e \<Rightarrow> ((app, pattern, has), Some e)
      | Inr False \<Rightarrow> values_loop E app_name app_type mark vs (app, pattern, has)
      | Inr True \<Rightarrow>
          (case set_detected_app E app_name app app_type pattern v [] of
             ((app1, pattern1), Some e) \<Rightarrow> ((app1, pattern1, has), Some e)
           | ((app1, pattern1), None) \<Rightarrow>
               values_loop E app_name app_type mark vs (app1, pattern1, has \<or> mark)))"

text \<open>The loop over the patterns of a list facet; the patterns are returned as changed.\<close>

fun patterns_loop ::
  "'rx re_engine \<Rightarrow> string \<Rightarrow> string \<Rightarrow> bool \<Rightarrow> string list \<Rightarrow> 'rx pattern list
     \<Rightarrow> 'rx app \<times> bool \<Rightarrow> ('rx pattern list \<times> 'rx app \<times> bool) \<times> py_error option" where
  "patterns_loop E app_name app_type mark vs [] (app, has) = (([], app, has), None)"
| "patterns_loop E app_name app_type mark vs (pattern # ps) (app, has) =
     (case values_loop E app_name app_type mark vs (app, pattern, has) of
        ((app1, pattern1, has1), Some e) \<Rightarrow> ((pattern1 # ps, app1, has1), Some e)
      | ((app1, pattern1, has1), None) \<Rightarrow>
          (case patterns_loop E app_name app_type mark vs ps (app1, has1) of
             ((ps1, app2, has2), r) \<Rightarrow> ((pattern1 # ps1, app2, has2), r)))"

text \<open>
  The loop over the items of a dictionary facet (\<^verbatim>\<open>headers\<close>, \<^verbatim>\<open>meta\<close>):
  \<^verbatim>\<open>if name in fields: content = fields[name]; if pattern['regex'].search(content): ...\<close>
\<close>

fun fields_loop ::
  "'rx re_engine \<Rightarrow> string \<Rightarrow> string \<Rightarrow> (string \<rightharpoonup> string) \<Rightarrow> (string \<times> 'rx pattern) list
     \<Rightarrow> 'rx app \<times> bool
     \<Rightarrow> ((string \<times> 'rx pattern) list \<times> 'rx app \<times> bool) \<times> py_error option" where
  "fields_loop E app_name app_type flds [] (app, has) = (([], app, has), None)"
| "fields_loop E app_name app_type flds ((name, pattern) # items) (app, has) =
     (case flds name of
        None \<Rightarrow>
          (case fields_loop E app_name app_type flds items (app, has) of
             ((items1, app1, has1), r) \<Rightarrow> (((name, pattern) # items1, app1, has1), r))
      | Some content \<Rightarrow>
          (case py_search E pattern content of
             Inl e \<Rightarrow> (((name, pattern) # items, app, has), Some e)
           | Inr False \<Rightarrow>
               (case fields_loop E app_name app_type flds items (app, has) of
                  ((items1, app1, has1), r) \<Rightarrow> (((name, pattern) # items1, app1, has1), r))
           | Inr True \<Rightarrow>
               (case set_detected_app E app_name app app_type pattern content name of
                  ((app1, pattern1), Some e) \<Rightarrow> (((name, pattern1) # items, app1, has), Some e)
                | ((app1, pattern1), None) \<Rightarrow>
                    (case fields_loop E app_name app_type flds items (app1, True) of
                       ((items1, app2, has2), r) \<Rightarrow>
                         (((name, pattern1) # items1, app2, has2), r)))))"

text \<open>
  The five loops of \<^verbatim>\<open>_has_app\<close>, in the order of the source.  Each takes the
  entry and the flag \<^verbatim>\<open>has_app\<close> and gives them back, with the patterns of its
  facet as the loop left them.  Only the loop over \<^verbatim>\<open>app['url']\<close> has no
  assignment to \<^verbatim>\<open>has_app\<close>.
\<close>

definition url_facet ::
  "'rx re_engine \<Rightarrow> string \<Rightarrow> webpage \<Rightarrow> 'rx app \<times> bool \<Rightarrow> ('rx app \<times> bool) \<times> py_error option" where
  "url_facet E app_name webpage st =
     (case patterns_loop E app_name ''url'' False [wp_url webpage] (url (fst st)) st of
        ((ps, app1, has1), r) \<Rightarrow> ((app1\<lparr>url := ps\<rparr>, has1), r))"

definition headers_facet ::
  "'rx re_engine \<Rightarrow> string \<Rightarrow> webpage \<Rightarrow> 'rx app \<times> bool \<Rightarrow> ('rx app \<times> bool) \<times> py_error option" where
  "headers_facet E app_name webpage st =
     (case fields_loop E app_name ''headers'' (wp_headers webpage) (headers (fst st)) st of
        ((items, app1, has1), r) \<Rightarrow> ((app1\<lparr>headers := items\<rparr>, has1), r))"

definition script_facet ::
  "'rx re_engine \<Rightarrow> string \<Rightarrow> webpage \<Rightarrow> 'rx app \<times> bool \<Rightarrow> ('rx app \<times> bool) \<times> py_error option" where
  "script_facet E app_name webpage st =
     (case patterns_loop E app_name ''script'' True (wp_scripts webpage) (script (fst st)) st of
        ((ps, app1, has1), r) \<Rightarrow> ((app1\<lparr>script := ps\<rparr>, has1), r))"

definition meta_facet ::
  "'rx re_engine \<Rightarrow> string \<Rightarrow> webpage \<Rightarrow> 'rx app \<times> bool \<Rightarrow> ('rx app \<times> bool) \<times> py_error option" where
  "meta_facet E app_name webpage st =
     (case fields_loop E app_name ''meta'' (wp_meta webpage) (meta (fst st)) st of
        ((items, app1, has1), r) \<Rightarrow> ((app1\<lparr>meta := items\<rparr>, has1), r))"

definition html_facet ::
  "'rx re_engine \<Rightarrow> string \<Rightarrow> webpage \<Rightarrow> 'rx app \<times> bool \<Rightarrow> ('rx app \<times> bool) \<times> py_error option" where
  "html_facet E app_name webpage st =
     (case patterns_loop E app_name ''html'' True [wp_html webpage] (html (fst st)) st of
        ((ps, app1, has1), r) \<Rightarrow> ((app1\<lparr>html := ps\<rparr>, has1), r))"

text \<open>One statement after another: an exception ends the sequence.\<close>

definition then_facet ::
  "('s \<times> py_error option) \<Rightarrow> ('s \<Rightarrow> 's \<times> py_error option) \<Rightarrow> 's \<times> py_error option" where
  "then_facet x f = (case x of (st, Some e) \<Rightarrow> (st, Some e) | (st, None) \<Rightarrow> f st)"

text \<open>
  \<^verbatim>\<open>for index in app['confidence']: total += app['confidence'][index]\<close>
\<close>

definition confidence_sum :: "(string \<times> int) list \<Rightarrow> int" where
  "confidence_sum conf =
     fold (\<lambda>index total. total + (case map_of conf index of None \<Rightarrow> 0 | Some w \<Rightarrow> w))
       (map fst conf) 0"

text \<open>
  \<^verbatim>\<open>_has_app\<close>: the five facets, then the total.  The result is the changed entry
  and the returned flag or the exception.
\<close>

definition has_app ::
  "'rx re_engine \<Rightarrow> string \<Rightarrow> 'rx app \<Rightarrow> webpage \<Rightarrow> 'rx app \<times> (py_error + bool)" where
  "has_app E app_name app webpage =
     (case then_facet (then_facet (then_facet (then_facet
               (url_facet E app_name webpage (app, False))
               (headers_facet E app_name webpage))
               (script_facet E app_name webpage))
               (meta_facet E app_name webpage))
               (html_facet E app_name webpage) of
        ((app1, has), Some e) \<Rightarrow> (app1, Inl e)
      | ((app1, has), None) \<Rightarrow>
          if has then
            (case confidence app1 of
               None \<Rightarrow> (app1, Inl KeyError)
             | Some conf \<Rightarrow> (app1\<lparr>confidenceTotal := Some (confidence_sum conf)\<rparr>, Inr True))
          else (app1, Inr False))"

section \<open>Implied applications\<close>

text \<open>
  The inner function of \<^verbatim>\<open>_get_implied_apps\<close>: the union of the \<^verbatim>\<open>implies\<close>
  lists of the given names; a name that is no key of \<^verbatim>\<open>self.apps\<close> raises
  \<^verbatim>\<open>KeyError\<close>, which is caught and skipped.
\<close>

definition get_implied_apps_inner :: "'rx apps \<Rightarrow> string set \<Rightarrow> string set" where
  "get_implied_apps_inner apps names =
     (\<Union>a\<in>names. case map_of apps a of None \<Rightarrow> {} | Some ap \<Rightarrow> set (implies ap))"

definition implied_universe :: "'rx apps \<Rightarrow> string set" where
  "implied_universe apps = (\<Union>ap\<in>snd ` set apps. set (implies ap))"

text \<open>
  The loop \<^verbatim>\<open>while not all_implied_apps.issuperset(implied_apps)\<close>, with the two
  variables as arguments.
\<close>

function implied_loop :: "'rx apps \<Rightarrow> string set \<Rightarrow> string set \<Rightarrow> string set" where
  "implied_loop apps all_implied_apps implied_apps =
     (if implied_apps \<subseteq> all_implied_apps then all_implied_apps
      else implied_loop apps (all_implied_apps \<union> implied_apps)
             (get_implied_apps_inner apps (all_implied_apps \<union> implied_apps)))"
  by pat_completeness auto

lemma inner_subset_universe: "get_implied_apps_inner apps names \<subseteq> implied_universe apps"
  by (auto simp: get_implied_apps_inner_def implied_universe_def
      split: option.splits dest!: map_of_SomeD) force

lemma finite_implied_universe: "finite (implied_universe apps)"
  by (simp add: implied_universe_def)

termination implied_loop
proof (relation "inv_image (less_than <*lex*> finite_psubset)
    (\<lambda>(apps, al, im). (if im \<subseteq> implied_universe apps then (0::nat) else 1,
                       implied_universe apps - al))")
  show "wf (inv_image (less_than <*lex*> finite_psubset)
    (\<lambda>(apps, al, im). (if im \<subseteq> implied_universe apps then (0::nat) else 1,
                       implied_universe apps - al)))"
    by (intro wf_inv_image wf_lex_prod wf_less_than wf_finite_psubset)
next
  fix apps :: "'rx apps" and al im :: "string set"
  assume ns: "\<not> im \<subseteq> al"
  let ?U = "implied_universe apps"
  show "((apps, al \<union> im, get_implied_apps_inner apps (al \<union> im)), (apps, al, im))
        \<in> inv_image (less_than <*lex*> finite_psubset)
            (\<lambda>(apps, al, im). (if im \<subseteq> implied_universe apps then (0::nat) else 1,
                               implied_universe apps - al))"
  proof (cases "im \<subseteq> ?U")
    case True
    from ns obtain x where x: "x \<in> im" "x \<notin> al" by blast
    with True have "x \<in> ?U - al" "x \<notin> ?U - (al \<union> im)" by auto
    then have "?U - (al \<union> im) \<subset> ?U - al" by blast
    with True show ?thesis
      by (simp add: inner_subset_universe finite_psubset_def finite_implied_universe)
  next
    case False
    then show ?thesis by (simp add: inner_subset_universe)
  qed
qed

definition get_implied_apps :: "'rx apps \<Rightarrow> string set \<Rightarrow> string set" where
  "get_implied_apps apps detected_apps =
     implied_loop apps {} (get_implied_apps_inner apps detected_apps)"

section \<open>Analysis and report builder\<close>

text \<open>
  \<^verbatim>\<open>for app_name, app in list(self.apps.items())\<close>: every entry is tested and
  changed in place; the names for which \<^verbatim>\<open>_has_app\<close> returns true are collected.
\<close>

fun analyze_loop ::
  "'rx re_engine \<Rightarrow> webpage \<Rightarrow> 'rx apps \<Rightarrow> ('rx apps \<times> string set) \<times> py_error option" where
  "analyze_loop E webpage [] = (([], {}), None)"
| "analyze_loop E webpage ((app_name, app) # rest) =
     (case has_app E app_name app webpage of
        (app1, Inl e) \<Rightarrow> (((app_name, app1) # rest, {}), Some e)
      | (app1, Inr has) \<Rightarrow>
          (case analyze_loop E webpage rest of
             ((rest1, detected_apps), r) \<Rightarrow>
               (((app_name, app1) # rest1,
                 if has then insert app_name detected_apps else detected_apps), r)))"

definition analyze ::
  "'rx re_engine \<Rightarrow> 'rx apps \<Rightarrow> webpage \<Rightarrow> 'rx apps \<times> (py_error + string set)" where
  "analyze E apps webpage =
     (case analyze_loop E webpage apps of
        ((apps1, detected_apps), Some e) \<Rightarrow> (apps1, Inl e)
      | ((apps1, detected_apps), None) \<Rightarrow>
          (apps1, Inr (detected_apps \<union> get_implied_apps apps1 detected_apps)))"

text \<open>
  \<^verbatim>\<open>self.categories.get(str(cat_num), "").get("name", "")\<close>: the default of the
  first \<^verbatim>\<open>get\<close> is a string, and a string has no \<^verbatim>\<open>get\<close>.
\<close>

definition category_name :: "(string \<times> 'rx pyval) list \<Rightarrow> int \<Rightarrow> py_error + 'rx pyval" where
  "category_name categories cat_num =
     (case (case map_of categories (str_int cat_num) of
              None \<Rightarrow> PStr []
            | Some c \<Rightarrow> c) of
        PDict d \<Rightarrow> Inr (case map_of d ''name'' of None \<Rightarrow> PStr [] | Some n \<Rightarrow> n)
      | _ \<Rightarrow> Inl AttributeError)"

definition get_categories ::
  "(string \<times> 'rx pyval) list \<Rightarrow> 'rx apps \<Rightarrow> string \<Rightarrow> py_error + 'rx pyval list" where
  "get_categories categories apps app_name =
     (let cat_nums = (case map_of apps app_name of
                        None \<Rightarrow> []
                      | Some app \<Rightarrow> (case cats app of None \<Rightarrow> [] | Some ns \<Rightarrow> ns))
      in map_result (category_name categories) cat_nums)"

definition get_versions :: "'rx apps \<Rightarrow> string \<Rightarrow> py_error + string list" where
  "get_versions apps app_name =
     (case map_of apps app_name of
        None \<Rightarrow> Inl KeyError
      | Some app \<Rightarrow> Inr (case versions app of None \<Rightarrow> [] | Some vs \<Rightarrow> vs))"

text \<open>The result \<open>None\<close> is the empty list that the source returns for a missing total.\<close>

definition get_confidence :: "'rx apps \<Rightarrow> string \<Rightarrow> py_error + int option" where
  "get_confidence apps app_name =
     (case map_of apps app_name of
        None \<Rightarrow> Inl KeyError
      | Some app \<Rightarrow> Inr (confidenceTotal app))"

text \<open>
  \<^verbatim>\<open>analyze_with_versions\<close>: the loop over the detected set raises as soon as
  \<^verbatim>\<open>get_versions\<close> does, whatever the order of the set.
\<close>

definition analyze_with_versions ::
  "'rx re_engine \<Rightarrow> 'rx apps \<Rightarrow> webpage \<Rightarrow> 'rx apps \<times> (py_error + (string \<rightharpoonup> string list))" where
  "analyze_with_versions E apps webpage =
     (case analyze E apps webpage of
        (apps1, Inl e) \<Rightarrow> (apps1, Inl e)
      | (apps1, Inr detected_apps) \<Rightarrow>
          (apps1,
           if \<exists>app_name\<in>detected_apps. get_versions apps1 app_name = Inl KeyError
           then Inl KeyError
           else Inr (\<lambda>app_name.
                  if app_name \<in> detected_apps
                  then (case get_versions apps1 app_name of
                          Inl e \<Rightarrow> None | Inr vs \<Rightarrow> Some vs)
                  else None)))"

section \<open>A regular-expression engine for the examples\<close>

text \<open>
  The theorems below hold for every engine.  To run the model on concrete pages, this
  section gives one engine: a backtracking matcher for a fragment of the syntax of
  \<^verbatim>\<open>re\<close> (literals, \<^verbatim>\<open>.\<close>, \<^verbatim>\<open>^\<close>, \<^verbatim>\<open>$\<close>, escaped characters, the classes
  \<^verbatim>\<open>\d\<close>, \<^verbatim>\<open>\w\<close>, \<^verbatim>\<open>\s\<close> and \<^verbatim>\<open>[...]\<close>, groups, \<^verbatim>\<open>(?:...)\<close>,
  \<^verbatim>\<open>(?!...)\<close>, alternatives and the greedy \<^verbatim>\<open>*\<close>, \<^verbatim>\<open>+\<close>, \<^verbatim>\<open>?\<close>).  It refuses
  every other expression.
\<close>

datatype rx =
    RChar char
  | RAny
  | RSet bool "(char \<times> char) list"
  | RStart
  | REnd
  | REmpty
  | RSeq rx rx
  | RAlt rx rx
  | RStar rx
  | RPlus rx
  | ROpt rx
  | RGroup nat rx
  | RNotAhead rx

definition upper_char :: "char \<Rightarrow> char" where
  "upper_char c =
     (if (97 \<le> (of_char c :: nat) \<and> (of_char c :: nat) \<le> 122)
         \<or> (224 \<le> (of_char c :: nat) \<and> (of_char c :: nat) \<le> 254 \<and> (of_char c :: nat) \<noteq> 247)
      then char_of ((of_char c :: nat) - 32) else c)"

definition in_ranges :: "(char \<times> char) list \<Rightarrow> char \<Rightarrow> bool" where
  "in_ranges rs c =
     list_ex (\<lambda>(lo, hi). (of_char lo :: nat) \<le> of_char c \<and> (of_char c :: nat) \<le> of_char hi) rs"

definition char_matches :: "bool \<Rightarrow> rx \<Rightarrow> char \<Rightarrow> bool" where
  "char_matches ic r c =
     (case r of
        RChar d \<Rightarrow> if ic then lower_char c = lower_char d else c = d
      | RAny \<Rightarrow> c \<noteq> CHR 0x0A
      | RSet neg rs \<Rightarrow>
          (in_ranges rs c \<or> (ic \<and> (in_ranges rs (lower_char c) \<or> in_ranges rs (upper_char c))))
            \<noteq> neg
      | _ \<Rightarrow> False)"

type_synonym rx_state = "string \<times> (nat \<times> string) list"

text \<open>
  Greedy repetition: every way to continue after one more round that consumed
  something, then the way that stops here.  The first argument bounds the rounds by
  the length of the text.
\<close>

primrec star_iter :: "nat \<Rightarrow> (rx_state \<Rightarrow> rx_state list) \<Rightarrow> rx_state \<Rightarrow> rx_state list" where
  "star_iter 0 step st = [st]"
| "star_iter (Suc n) step st =
     concat (map (\<lambda>st1. if length (fst st1) < length (fst st) then star_iter n step st1 else [])
               (step st)) @ [st]"

text \<open>
  All the ways in which an expression matches at the start of the text, in the order
  in which a backtracking matcher tries them: each is the text that remains and the
  groups captured.  \<open>n\<close> is the length of the whole subject.
\<close>

fun rx_match :: "bool \<Rightarrow> nat \<Rightarrow> rx \<Rightarrow> rx_state \<Rightarrow> rx_state list" where
  "rx_match ic n (RSeq a b) st = concat (map (rx_match ic n b) (rx_match ic n a st))"
| "rx_match ic n (RAlt a b) st = rx_match ic n a st @ rx_match ic n b st"
| "rx_match ic n (RStar a) st = star_iter (length (fst st)) (rx_match ic n a) st"
| "rx_match ic n (RPlus a) st =
     concat (map (\<lambda>st1. star_iter (length (fst st1)) (rx_match ic n a) st1) (rx_match ic n a st))"
| "rx_match ic n (ROpt a) st = rx_match ic n a st @ [st]"
| "rx_match ic n (RGroup k a) st =
     map (\<lambda>(s1, caps). (s1, AList.update k (take (length (fst st) - length s1) (fst st)) caps))
       (rx_match ic n a st)"
| "rx_match ic n (RNotAhead a) st = (if rx_match ic n a st = [] then [st] else [])"
| "rx_match ic n RStart st = (if length (fst st) = n then [st] else [])"
| "rx_match ic n REnd st = (if fst st = [] \<or> fst st = [CHR 0x0A] then [st] else [])"
| "rx_match ic n REmpty st = [st]"
| "rx_match ic n r st =
     (case fst st of
        [] \<Rightarrow> []
      | c # cs \<Rightarrow> if char_matches ic r c then [(cs, snd st)] else [])"

text \<open>A compiled expression: the flag \<^verbatim>\<open>re.I\<close>, the number of groups, the expression.\<close>

type_synonym compiled = "bool \<times> nat \<times> rx"

text \<open>
  The leftmost match at or after the start of \<open>s\<close>: the text from the start of the
  match, and the state after it.  With \<open>adv\<close> an empty match at the first position is
  not accepted.
\<close>

fun search_from :: "compiled \<Rightarrow> nat \<Rightarrow> bool \<Rightarrow> string \<Rightarrow> (string \<times> rx_state) option" where
  "search_from (ic, g, r) n adv s =
     (case filter (\<lambda>st. \<not> adv \<or> length (fst st) < length s) (rx_match ic n r (s, [])) of
        st # sts \<Rightarrow> Some (s, st)
      | [] \<Rightarrow> (case s of [] \<Rightarrow> None | c # cs \<Rightarrow> search_from (ic, g, r) n False cs))"

definition rx_search :: "compiled \<Rightarrow> string \<Rightarrow> bool" where
  "rx_search c s = (search_from c (length s) False s \<noteq> None)"

text \<open>
  The item of \<^verbatim>\<open>findall\<close> for a match: the match if there is no group, the group if
  there is one, the tuple of the groups otherwise; a group that took no part is empty.
\<close>

definition group_text :: "(nat \<times> string) list \<Rightarrow> nat \<Rightarrow> string" where
  "group_text caps k = (case map_of caps k of None \<Rightarrow> [] | Some t \<Rightarrow> t)"

definition findall_item :: "nat \<Rightarrow> string \<Rightarrow> rx_state \<Rightarrow> re_match" where
  "findall_item g s st =
     (if g = 0 then MStr (take (length s - length (fst st)) s)
      else if g = 1 then MStr (group_text (snd st) 1)
      else MTuple (map (group_text (snd st)) [1..<Suc g]))"

text \<open>
  The scan of \<^verbatim>\<open>findall\<close>: the next search starts where the match ended, and after
  an empty match it has to advance.  The first argument bounds the number of matches.
\<close>

primrec findall_loop :: "nat \<Rightarrow> compiled \<Rightarrow> nat \<Rightarrow> bool \<Rightarrow> string \<Rightarrow> re_match list" where
  "findall_loop 0 c n adv s = []"
| "findall_loop (Suc fuel) c n adv s =
     (case search_from c n adv s of
        None \<Rightarrow> []
      | Some (s1, st) \<Rightarrow>
          findall_item (fst (snd c)) s1 st
            # findall_loop fuel c n (length (fst st) = length s1) (fst st))"

definition rx_findall :: "compiled \<Rightarrow> string \<Rightarrow> re_match list" where
  "rx_findall c s = findall_loop (2 * length s + 2) c (length s) False s"

text \<open>
  The parser reads the expression character by character.  A frame is an open group:
  its kind, the alternatives closed so far and the atoms of the current one (both in
  reverse), and whether the last atom may take a quantifier.
\<close>

datatype frame_kind = FTop | FCapture nat | FPlain | FNotAhead

type_synonym frame = "frame_kind \<times> rx list \<times> rx list \<times> bool"

datatype parse_mode =
    MNormal
  | MEscape
  | MOpen
  | MOpenQ
  | MClassStart
  | MClass bool "(char \<times> char) list" bool
  | MClassEscape bool "(char \<times> char) list" bool

type_synonym parse_state = "parse_mode \<times> frame list \<times> nat"

fun seq_rx :: "rx list \<Rightarrow> rx" where
  "seq_rx [] = REmpty"
| "seq_rx [a] = a"
| "seq_rx (a # b # bs) = seq_rx (RSeq b a # bs)"

fun alt_rx :: "rx list \<Rightarrow> rx" where
  "alt_rx [] = REmpty"
| "alt_rx [a] = a"
| "alt_rx (a # b # bs) = alt_rx (RAlt b a # bs)"

definition frame_rx :: "rx list \<Rightarrow> rx list \<Rightarrow> rx" where
  "frame_rx alts atoms = alt_rx (seq_rx atoms # alts)"

definition add_atom :: "rx \<Rightarrow> bool \<Rightarrow> frame list \<Rightarrow> nat \<Rightarrow> parse_state option" where
  "add_atom a q stack g =
     (case stack of
        [] \<Rightarrow> None
      | (kind, alts, atoms, q0) # rest \<Rightarrow> Some (MNormal, (kind, alts, a # atoms, q) # rest, g))"

definition quantify :: "(rx \<Rightarrow> rx) \<Rightarrow> frame list \<Rightarrow> nat \<Rightarrow> parse_state option" where
  "quantify f stack g =
     (case stack of
        (kind, alts, a # atoms, True) # rest \<Rightarrow>
          Some (MNormal, (kind, alts, f a # atoms, False) # rest, g)
      | _ \<Rightarrow> None)"

definition close_group :: "frame list \<Rightarrow> nat \<Rightarrow> parse_state option" where
  "close_group stack g =
     (case stack of
        (kind, alts, atoms, q) # parent # rest \<Rightarrow>
          (let body = frame_rx alts atoms
           in add_atom (case kind of
                          FCapture k \<Rightarrow> RGroup k body
                        | FNotAhead \<Rightarrow> RNotAhead body
                        | _ \<Rightarrow> body) True (parent # rest) g)
      | _ \<Rightarrow> None)"

definition is_alnum :: "char \<Rightarrow> bool" where
  "is_alnum c = (is_digit c
     \<or> (65 \<le> (of_char c :: nat) \<and> (of_char c :: nat) \<le> 90)
     \<or> (97 \<le> (of_char c :: nat) \<and> (of_char c :: nat) \<le> 122))"

definition digit_ranges :: "(char \<times> char) list" where
  "digit_ranges = [(CHR ''0'', CHR ''9'')]"

definition word_ranges :: "(char \<times> char) list" where
  "word_ranges = [(CHR ''a'', CHR ''z''), (CHR ''A'', CHR ''Z''), (CHR ''0'', CHR ''9''),
                  (CHR ''_'', CHR ''_'')]"

definition space_ranges :: "(char \<times> char) list" where
  "space_ranges = [(CHR 0x09, CHR 0x0D), (CHR '' '', CHR '' '')]"

definition escape_atom :: "char \<Rightarrow> rx option" where
  "escape_atom c =
     (if c = CHR ''d'' then Some (RSet False digit_ranges)
      else if c = CHR ''D'' then Some (RSet True digit_ranges)
      else if c = CHR ''w'' then Some (RSet False word_ranges)
      else if c = CHR ''W'' then Some (RSet True word_ranges)
      else if c = CHR ''s'' then Some (RSet False space_ranges)
      else if c = CHR ''S'' then Some (RSet True space_ranges)
      else if is_alnum c then None
      else Some (RChar c))"

definition step_normal :: "frame list \<Rightarrow> nat \<Rightarrow> char \<Rightarrow> parse_state option" where
  "step_normal stack g c =
     (if c = backslash then Some (MEscape, stack, g)
      else if c = CHR ''('' then Some (MOpen, stack, g)
      else if c = CHR '')'' then close_group stack g
      else if c = CHR ''['' then Some (MClassStart, stack, g)
      else if c = CHR ''|'' then
        (case stack of
           [] \<Rightarrow> None
         | (kind, alts, atoms, q) # rest \<Rightarrow>
             Some (MNormal, (kind, seq_rx atoms # alts, [], False) # rest, g))
      else if c = CHR ''*'' then quantify RStar stack g
      else if c = CHR ''+'' then quantify RPlus stack g
      else if c = CHR ''?'' then quantify ROpt stack g
      else if c = CHR ''.'' then add_atom RAny True stack g
      else if c = CHR ''^'' then add_atom RStart False stack g
      else if c = CHR ''$'' then add_atom REnd False stack g
      else if c = CHR ''{'' then None
      else add_atom (RChar c) True stack g)"

definition class_item :: "bool \<Rightarrow> (char \<times> char) list \<Rightarrow> bool \<Rightarrow> char \<Rightarrow> parse_mode option" where
  "class_item neg rs dash c =
     (if dash then
        (case rs of
           (lo, hi) # rest \<Rightarrow>
             if lo = hi \<and> (of_char lo :: nat) \<le> of_char c
             then Some (MClass neg ((lo, c) # rest) False) else None
         | [] \<Rightarrow> None)
      else Some (MClass neg ((c, c) # rs) False))"

definition step_class ::
  "bool \<Rightarrow> (char \<times> char) list \<Rightarrow> bool \<Rightarrow> frame list \<Rightarrow> nat \<Rightarrow> char \<Rightarrow> parse_state option" where
  "step_class neg rs dash stack g c =
     (if c = CHR '']'' then
        (if rs = [] then None
         else add_atom (RSet neg (rev (if dash then (CHR ''-'', CHR ''-'') # rs else rs)))
                True stack g)
      else if c = backslash then Some (MClassEscape neg rs dash, stack, g)
      else if c = CHR ''-'' \<and> rs \<noteq> [] \<and> \<not> dash then Some (MClass neg rs True, stack, g)
      else map_option (\<lambda>m. (m, stack, g)) (class_item neg rs dash c))"

fun parse_step :: "parse_state \<Rightarrow> char \<Rightarrow> parse_state option" where
  "parse_step (MNormal, stack, g) c = step_normal stack g c"
| "parse_step (MEscape, stack, g) c =
     (case escape_atom c of None \<Rightarrow> None | Some a \<Rightarrow> add_atom a True stack g)"
| "parse_step (MOpen, stack, g) c =
     (if c = CHR ''?'' then Some (MOpenQ, stack, g)
      else step_normal ((FCapture (Suc g), [], [], False) # stack) (Suc g) c)"
| "parse_step (MOpenQ, stack, g) c =
     (if c = CHR '':'' then Some (MNormal, (FPlain, [], [], False) # stack, g)
      else if c = CHR ''!'' then Some (MNormal, (FNotAhead, [], [], False) # stack, g)
      else None)"
| "parse_step (MClassStart, stack, g) c =
     (if c = CHR ''^'' then Some (MClass True [] False, stack, g)
      else step_class False [] False stack g c)"
| "parse_step (MClass neg rs dash, stack, g) c = step_class neg rs dash stack g c"
| "parse_step (MClassEscape neg rs dash, stack, g) c =
     (case escape_atom c of
        Some (RChar d) \<Rightarrow> map_option (\<lambda>m. (m, stack, g)) (class_item neg rs dash d)
      | Some (RSet False rs1) \<Rightarrow>
          if dash then None else Some (MClass neg (rev rs1 @ rs) False, stack, g)
      | _ \<Rightarrow> None)"

fun parse_from :: "parse_state \<Rightarrow> string \<Rightarrow> parse_state option" where
  "parse_from st [] = Some st"
| "parse_from st (c # cs) =
     (case parse_step st c of None \<Rightarrow> None | Some st1 \<Rightarrow> parse_from st1 cs)"

definition rx_compile :: "bool \<Rightarrow> string \<Rightarrow> compiled option" where
  "rx_compile ic s =
     (case parse_from (MNormal, [(FTop, [], [], False)], 0) s of
        Some (MNormal, [(FTop, alts, atoms, q)], g) \<Rightarrow> Some (ic, g, frame_rx alts atoms)
      | _ \<Rightarrow> None)"

definition example_re :: "compiled re_engine" where
  "example_re = \<lparr>re_compile = rx_compile, re_search = rx_search, re_findall = rx_findall\<rparr>"

section \<open>Sequences of analyses\<close>

text \<open>
  The version list and the confidence map of an entry, empty while the key is absent;
  the relation between an entry and a later state of it in which nothing was lost;
  and the store after the analyses of a list of pages, one after the other, on the
  same instance.
\<close>

definition version_list :: "'rx app \<Rightarrow> string list" where
  "version_list app = (case versions app of None \<Rightarrow> [] | Some vs \<Rightarrow> vs)"

definition confidence_map :: "'rx app \<Rightarrow> (string \<times> int) list" where
  "confidence_map app = (case confidence app of None \<Rightarrow> [] | Some c \<Rightarrow> c)"

definition accumulates :: "'rx app \<Rightarrow> 'rx app \<Rightarrow> bool" where
  "accumulates a b =
     (set (version_list a) \<subseteq> set (version_list b)
      \<and> fst ` set (confidence_map a) \<subseteq> fst ` set (confidence_map b)
      \<and> (versions a \<noteq> None \<longrightarrow> versions b \<noteq> None)
      \<and> (confidence a \<noteq> None \<longrightarrow> confidence b \<noteq> None)
      \<and> (confidenceTotal a \<noteq> None \<longrightarrow> confidenceTotal b \<noteq> None)
      \<and> (detected a = Some True \<longrightarrow> detected b = Some True))"

fun analyze_all :: "'rx re_engine \<Rightarrow> 'rx apps \<Rightarrow> webpage list \<Rightarrow> 'rx apps" where
  "analyze_all E apps [] = apps"
| "analyze_all E apps (webpage # pages) = analyze_all E (fst (analyze E apps webpage)) pages"

section \<open>Patterns of a prepared entry\<close>

text \<open>The number of patterns in a facet of an entry, and whether an entry has any.\<close>

definition facet_size :: "(string \<times> 'rx pyval) list \<Rightarrow> string \<Rightarrow> nat" where
  "facet_size app key =
     (case map_of app key of
        Some (PList ps) \<Rightarrow> length ps
      | Some (PDict obj) \<Rightarrow> length obj
      | _ \<Rightarrow> 0)"

definition has_pattern :: "(string \<times> 'rx pyval) list \<Rightarrow> bool" where
  "has_pattern app =
     (\<exists>key\<in>set [''url'', ''html'', ''script'', ''headers'', ''meta'']. facet_size app key \<noteq> 0)"

section \<open>Firing events\<close>









text \<open>The confidence map after a list of events: each event overwrites its label.\<close>

definition record_events :: "(string \<times> int) list \<Rightarrow> (string \<times> int) list \<Rightarrow> (string \<times> int) list" where
  "record_events evs conf = fold (\<lambda>(l, w) c. AList.update l w c) evs conf"



section \<open>Example stores and pages\<close>

text \<open>A store with a cycle of implications and a name that is no entry.\<close>

definition c1_pattern :: "compiled pattern" where
  "c1_pattern = [(''string'', PStr ''a''), (''regex'', PRegex (True, 0, RChar CHR ''a''))]"

definition c1_app_a :: "compiled app" where
  "c1_app_a =
     \<lparr>cats = None, url = [], html = [c1_pattern], script = [], headers = [], meta = [],
      implies = [''B''], detected = None, confidence = None, confidenceTotal = None,
      versions = None\<rparr>"

definition c1_app_b :: "compiled app" where
  "c1_app_b =
     \<lparr>cats = None, url = [], html = [], script = [], headers = [], meta = [],
      implies = [''A'', ''C''], detected = None, confidence = None, confidenceTotal = None,
      versions = None\<rparr>"

definition c1_apps :: "compiled apps" where
  "c1_apps = [(''A'', c1_app_a), (''B'', c1_app_b)]"

definition c1_page :: webpage where
  "c1_page = \<lparr>wp_url = ''http://x'', wp_html = ''a'', wp_headers = Map.empty, wp_scripts = [],
              wp_meta = Map.empty\<rparr>"

text \<open>An entry of category 1 and a category table that has the id 1 only.\<close>

definition c8_app :: "compiled app" where
  "c8_app =
     \<lparr>cats = Some [1, 7], url = [], html = [], script = [], headers = [], meta = [],
      implies = [], detected = None, confidence = None, confidenceTotal = None,
      versions = None\<rparr>"

definition c8_categories :: "(string \<times> compiled pyval) list" where
  "c8_categories = [(''1'', PDict [(''name'', PStr ''CMS''), (''priority'', PInt 1)])]"

text \<open>
  A pattern with the expression \<^verbatim>\<open>v([0-9.]+)\<close> and the version template \<^verbatim>\<open>\1\<close>,
  as \<^verbatim>\<open>_prepare_pattern\<close> builds it, and an entry that has it as a script pattern.
\<close>

definition version_rx :: compiled where
  "version_rx =
     (True, 1,
      RSeq (RChar CHR ''v'')
        (RGroup 1 (RPlus (RSet False [(CHR ''0'', CHR ''9''), (CHR ''.'', CHR ''.'')]))))"

definition version_pattern :: "compiled pattern" where
  "version_pattern =
     [(''string'', PStr ''v([0-9.]+)''), (''regex'', PRegex version_rx),
      (''version'', PStr [backslash, CHR ''1''])]"

definition version_app :: "compiled app" where
  "version_app =
     \<lparr>cats = None, url = [], html = [], script = [version_pattern], headers = [], meta = [],
      implies = [], detected = None, confidence = None, confidenceTotal = None,
      versions = None\<rparr>"

text \<open>A store with that entry, a page with two versions in a script, and an empty page.\<close>

definition c9_apps :: "compiled apps" where
  "c9_apps = [(''A'', version_app)]"

definition c9_page1 :: webpage where
  "c9_page1 = \<lparr>wp_url = ''http://x'', wp_html = [], wp_headers = Map.empty,
               wp_scripts = [''a-v1.2.3/b-v1.2/c.js''], wp_meta = Map.empty\<rparr>"

definition c9_page2 :: webpage where
  "c9_page2 = \<lparr>wp_url = ''http://y'', wp_html = [], wp_headers = Map.empty,
               wp_scripts = [], wp_meta = Map.empty\<rparr>"

text \<open>
  A raw entry with the shorthands of the document (a string for a list, a string for
  the meta dictionary, a header name in capitals), the entry that \<^verbatim>\<open>_prepare_app\<close>
  makes of it, and a raw entry without patterns.
\<close>

definition c7_raw :: "(string \<times> compiled pyval) list" where
  "c7_raw = [(''cats'', PList [PInt 1]), (''url'', PStr ''a''), (''meta'', PStr ''b''),
             (''headers'', PDict [(''X-By'', PStr ''c'')])]"

definition c7_prepared :: "(string \<times> compiled pyval) list" where
  "c7_prepared =
     [(''cats'', PList [PInt 1]),
      (''url'', PList [PDict [(''string'', PStr ''a''),
                               (''regex'', PRegex (True, 0, RChar CHR ''a''))]]),
      (''meta'', PDict [(''generator'',
                          PDict [(''string'', PStr ''b''),
                                 (''regex'', PRegex (True, 0, RChar CHR ''b''))])]),
      (''headers'', PDict [(''x-by'',
                             PDict [(''string'', PStr ''c''),
                                    (''regex'', PRegex (True, 0, RChar CHR ''c''))])]),
      (''html'', PList []), (''script'', PList []), (''implies'', PList [])]"

definition c7_plain :: "(string \<times> compiled pyval) list" where
  "c7_plain = [(''cats'', PList [PInt 1]), (''implies'', PStr ''PHP'')]"

definition c7_plain_prepared :: "(string \<times> compiled pyval) list" where
  "c7_plain_prepared =
     [(''cats'', PList [PInt 1]), (''implies'', PList [PStr ''PHP'']),
      (''url'', PList []), (''html'', PList []), (''script'', PList []),
      (''headers'', PDict []), (''meta'', PDict [])]"

section \<open>What \<^verbatim>\<open>_set_detected_app\<close> leaves unchanged\<close>

definition same_static :: "'rx app \<Rightarrow> 'rx app \<Rightarrow> bool" where
  "same_static a b =
     (cats a = cats b \<and> url a = url b \<and> html a = html b \<and> script a = script b \<and>
      headers a = headers b \<and> meta a = meta b \<and> implies a = implies b \<and>
      confidenceTotal a = confidenceTotal b)"

lemma add_version_static: "same_static (add_version v app) app"
  by (simp add: add_version_def same_static_def split: option.splits)

lemma fold_add_version_static:
  "same_static (fold (\<lambda>m. add_version (f m)) ms app) app"
proof (induction ms arbitrary: app)
  case Nil
  show ?case by (simp add: same_static_def)
next
  case (Cons m ms)
  have "same_static (fold (\<lambda>m. add_version (f m)) ms (add_version (f m) app)) (add_version (f m) app)"
    by (rule Cons.IH)
  then show ?case
    using add_version_static[of "f m" app] by (simp add: same_static_def)
qed

lemma same_static_refl: "same_static a a"
  by (simp add: same_static_def)

lemma same_static_trans: "same_static a b \<Longrightarrow> same_static b c \<Longrightarrow> same_static a c"
  by (simp add: same_static_def)

lemma set_app_version_static: "same_static (set_app_version app) app"
  by (simp add: set_app_version_def same_static_def split: option.splits)

lemma detect_version_static:
  "detect_version E pattern v app = (app1, r) \<Longrightarrow> same_static app1 app"
  unfolding detect_version_def
  by (auto split: option.splits sum.splits pyval.splits if_splits
      intro: same_static_refl set_app_version_static
        same_static_trans[OF set_app_version_static fold_add_version_static])

lemma set_detected_app_static:
  "set_detected_app E app_name app app_type pattern v key = ((app1, pattern1), r) \<Longrightarrow>
   same_static app1 app"
  unfolding set_detected_app_def Let_def
  by (auto split: sum.splits prod.splits dest!: detect_version_static simp: same_static_def)

lemma set_detected_app_implies:
  "set_detected_app E n app ty p v k = ((app1, p1), r) \<Longrightarrow> implies app1 = implies app"
  by (drule set_detected_app_static) (simp add: same_static_def)













section \<open>What the loops leave related\<close>

text \<open>
  Every change of an entry during \<^verbatim>\<open>_has_app\<close> is made by \<^verbatim>\<open>_set_detected_app\<close>,
  by a loop handing back the patterns of its facet, or by the assignment of the total.
  So a reflexive and transitive relation that these steps respect holds between the
  entry before and after \<^verbatim>\<open>_has_app\<close>, whether it returns or raises.
\<close>

lemma values_loop_rel:
  assumes step: "\<And>app p v k app1 p1 r.
            set_detected_app E n app ty p v k = ((app1, p1), r) \<Longrightarrow> R app app1"
    and refl: "\<And>a. R a a"
    and trans: "\<And>a b c. R a b \<Longrightarrow> R b c \<Longrightarrow> R a c"
  shows "values_loop E n ty mark vs (app, p, has) = ((app1, p1, has1), r) \<Longrightarrow> R app app1"
proof (induction vs arbitrary: app p has)
  case Nil
  then show ?case by (simp add: refl)
next
  case (Cons v vs)
  show ?case
  proof (cases "py_search E p v")
    case (Inl e)
    with Cons.prems show ?thesis by (simp add: refl)
  next
    case (Inr b)
    show ?thesis
    proof (cases b)
      case False
      with Inr Cons.prems Cons.IH show ?thesis by simp
    next
      case True
      obtain app2 p2 r2 where
        sd: "set_detected_app E n app ty p v [] = ((app2, p2), r2)"
        by (metis surj_pair)
      have st: "R app app2" using sd by (rule step)
      show ?thesis
      proof (cases r2)
        case None
        with Inr True sd Cons.prems
        have "values_loop E n ty mark vs (app2, p2, has \<or> mark) = ((app1, p1, has1), r)"
          by simp
        then have "R app2 app1" by (rule Cons.IH)
        with st show ?thesis by (rule trans)
      next
        case (Some e)
        with Inr True sd Cons.prems st show ?thesis by simp
      qed
    qed
  qed
qed

lemma patterns_loop_rel:
  assumes step: "\<And>app p v k app1 p1 r.
            set_detected_app E n app ty p v k = ((app1, p1), r) \<Longrightarrow> R app app1"
    and refl: "\<And>a. R a a"
    and trans: "\<And>a b c. R a b \<Longrightarrow> R b c \<Longrightarrow> R a c"
  shows "patterns_loop E n ty mark vs ps (app, has) = ((ps1, app1, has1), r) \<Longrightarrow> R app app1"
proof (induction ps arbitrary: app has ps1 app1 has1 r)
  case Nil
  then show ?case by (simp add: refl)
next
  case (Cons p ps)
  obtain app2 p2 has2 r2 where
    vl: "values_loop E n ty mark vs (app, p, has) = ((app2, p2, has2), r2)"
    by (metis surj_pair)
  have st: "R app app2" using step refl trans vl by (rule values_loop_rel)
  show ?case
  proof (cases r2)
    case (Some e)
    with vl Cons.prems st show ?thesis by simp
  next
    case None
    obtain ps3 app3 has3 r3 where
      pl: "patterns_loop E n ty mark vs ps (app2, has2) = ((ps3, app3, has3), r3)"
      by (metis surj_pair)
    have "R app2 app3" using pl by (rule Cons.IH)
    moreover have "app1 = app3" using vl None pl Cons.prems by simp
    ultimately show ?thesis using st trans by blast
  qed
qed

lemma fields_loop_rel:
  assumes step: "\<And>app p v k app1 p1 r.
            set_detected_app E n app ty p v k = ((app1, p1), r) \<Longrightarrow> R app app1"
    and refl: "\<And>a. R a a"
    and trans: "\<And>a b c. R a b \<Longrightarrow> R b c \<Longrightarrow> R a c"
  shows "fields_loop E n ty flds items (app, has) = ((items1, app1, has1), r) \<Longrightarrow> R app app1"
proof (induction items arbitrary: app has items1 app1 has1 r)
  case Nil
  then show ?case by (simp add: refl)
next
  case (Cons item items)
  obtain name p where item: "item = (name, p)" by (cases item)
  have skip: "R app app1"
    if "fields_loop E n ty flds items (app, has) = ((items2, app1, has1), r)" for items2
    using that by (rule Cons.IH)
  show ?case
  proof (cases "flds name")
    case None
    with Cons.prems item show ?thesis
      by (auto split: prod.splits intro: skip)
  next
    case (Some content)
    show ?thesis
    proof (cases "py_search E p content")
      case (Inl e)
      with Some Cons.prems item show ?thesis by (simp add: refl)
    next
      case (Inr b)
      show ?thesis
      proof (cases b)
        case False
        with Inr Some Cons.prems item show ?thesis
          by (auto split: prod.splits intro: skip)
      next
        case True
        obtain app2 p2 r2 where
          sd: "set_detected_app E n app ty p content name = ((app2, p2), r2)"
          by (metis surj_pair)
        have st: "R app app2" using sd by (rule step)
        show ?thesis
        proof (cases r2)
          case (Some e)
          with Inr True sd \<open>flds name = Some content\<close> Cons.prems item st show ?thesis by simp
        next
          case None
          obtain items3 app3 has3 r3 where
            fl: "fields_loop E n ty flds items (app2, True) = ((items3, app3, has3), r3)"
            by (metis surj_pair)
          have "R app2 app3" using fl by (rule Cons.IH)
          moreover have "app1 = app3"
            using Inr True sd \<open>flds name = Some content\<close> None fl Cons.prems item by simp
          ultimately show ?thesis using st trans by blast
        qed
      qed
    qed
  qed
qed

lemma then_facet_rel:
  assumes run: "then_facet (st1, r1) f = (st9, r)"
    and x: "R st0 (fst st1)"
    and f: "\<And>st st2 r2. f st = (st2, r2) \<Longrightarrow> R (fst st) (fst st2)"
    and trans: "\<And>a b c. R a b \<Longrightarrow> R b c \<Longrightarrow> R a c"
  shows "R st0 (fst st9)"
proof (cases r1)
  case None
  with run have "f st1 = (st9, r)" by (simp add: then_facet_def)
  then have "R (fst st1) (fst st9)" by (rule f)
  with x show ?thesis using trans by blast
next
  case (Some e)
  with run have "st9 = st1" by (simp add: then_facet_def)
  then show ?thesis using x by simp
qed

lemma has_app_rel:
  assumes step: "\<And>app p v k ty app1 p1 r.
            set_detected_app E n app ty p v k = ((app1, p1), r) \<Longrightarrow> R app app1"
    and refl: "\<And>a. R a a"
    and trans: "\<And>a b c. R a b \<Longrightarrow> R b c \<Longrightarrow> R a c"
    and u1: "\<And>a x. R a (a\<lparr>url := x\<rparr>)"
    and u2: "\<And>a x. R a (a\<lparr>headers := x\<rparr>)"
    and u3: "\<And>a x. R a (a\<lparr>script := x\<rparr>)"
    and u4: "\<And>a x. R a (a\<lparr>meta := x\<rparr>)"
    and u5: "\<And>a x. R a (a\<lparr>html := x\<rparr>)"
    and u6: "\<And>a x. R a (a\<lparr>confidenceTotal := Some x\<rparr>)"
    and run: "has_app E n app webpage = (app9, r)"
  shows "R app app9"
proof -
  have f1: "R (fst st) (fst st1)" if "url_facet E n webpage st = (st1, r1)" for st st1 r1
  proof -
    obtain ps a h r0 where l0: "patterns_loop E n ''url'' False [wp_url webpage] (url (fst st)) st = ((ps, a, h), r0)"
      by (metis surj_pair)
    with that have e: "st1 = (a\<lparr>url := ps\<rparr>, h)" and "r0 = r1"
      unfolding url_facet_def by auto
    with l0 have l: "patterns_loop E n ''url'' False [wp_url webpage] (url (fst st)) (fst st, snd st) = ((ps, a, h), r1)"
      by simp
    have "R (fst st) a" using step refl trans l by (rule patterns_loop_rel)
    with e show ?thesis using u1 trans by auto
  qed
  have f2: "R (fst st) (fst st1)" if "headers_facet E n webpage st = (st1, r1)" for st st1 r1
  proof -
    obtain ps a h r0 where l0: "fields_loop E n ''headers'' (wp_headers webpage) (headers (fst st)) st = ((ps, a, h), r0)"
      by (metis surj_pair)
    with that have e: "st1 = (a\<lparr>headers := ps\<rparr>, h)" and "r0 = r1"
      unfolding headers_facet_def by auto
    with l0 have l: "fields_loop E n ''headers'' (wp_headers webpage) (headers (fst st)) (fst st, snd st) = ((ps, a, h), r1)"
      by simp
    have "R (fst st) a" using step refl trans l by (rule fields_loop_rel)
    with e show ?thesis using u2 trans by auto
  qed
  have f3: "R (fst st) (fst st1)" if "script_facet E n webpage st = (st1, r1)" for st st1 r1
  proof -
    obtain ps a h r0 where l0: "patterns_loop E n ''script'' True (wp_scripts webpage) (script (fst st)) st = ((ps, a, h), r0)"
      by (metis surj_pair)
    with that have e: "st1 = (a\<lparr>script := ps\<rparr>, h)" and "r0 = r1"
      unfolding script_facet_def by auto
    with l0 have l: "patterns_loop E n ''script'' True (wp_scripts webpage) (script (fst st)) (fst st, snd st) = ((ps, a, h), r1)"
      by simp
    have "R (fst st) a" using step refl trans l by (rule patterns_loop_rel)
    with e show ?thesis using u3 trans by auto
  qed
  have f4: "R (fst st) (fst st1)" if "meta_facet E n webpage st = (st1, r1)" for st st1 r1
  proof -
    obtain ps a h r0 where l0: "fields_loop E n ''meta'' (wp_meta webpage) (meta (fst st)) st = ((ps, a, h), r0)"
      by (metis surj_pair)
    with that have e: "st1 = (a\<lparr>meta := ps\<rparr>, h)" and "r0 = r1"
      unfolding meta_facet_def by auto
    with l0 have l: "fields_loop E n ''meta'' (wp_meta webpage) (meta (fst st)) (fst st, snd st) = ((ps, a, h), r1)"
      by simp
    have "R (fst st) a" using step refl trans l by (rule fields_loop_rel)
    with e show ?thesis using u4 trans by auto
  qed
  have f5: "R (fst st) (fst st1)" if "html_facet E n webpage st = (st1, r1)" for st st1 r1
  proof -
    obtain ps a h r0 where l0: "patterns_loop E n ''html'' True [wp_html webpage] (html (fst st)) st = ((ps, a, h), r0)"
      by (metis surj_pair)
    with that have e: "st1 = (a\<lparr>html := ps\<rparr>, h)" and "r0 = r1"
      unfolding html_facet_def by auto
    with l0 have l: "patterns_loop E n ''html'' True [wp_html webpage] (html (fst st)) (fst st, snd st) = ((ps, a, h), r1)"
      by simp
    have "R (fst st) a" using step refl trans l by (rule patterns_loop_rel)
    with e show ?thesis using u5 trans by auto
  qed
  obtain s1 e1 where c1: "url_facet E n webpage (app, False) = (s1, e1)"
    by (metis surj_pair)
  have q1: "R app (fst s1)" using f1[OF c1] by simp
  obtain s2 e2 where c2: "then_facet (s1, e1) (headers_facet E n webpage) = (s2, e2)"
    by (metis surj_pair)
  have q2: "R app (fst s2)" using c2 q1 f2 trans by (rule then_facet_rel)
  obtain s3 e3 where c3: "then_facet (s2, e2) (script_facet E n webpage) = (s3, e3)"
    by (metis surj_pair)
  have q3: "R app (fst s3)" using c3 q2 f3 trans by (rule then_facet_rel)
  obtain s4 e4 where c4: "then_facet (s3, e3) (meta_facet E n webpage) = (s4, e4)"
    by (metis surj_pair)
  have q4: "R app (fst s4)" using c4 q3 f4 trans by (rule then_facet_rel)
  obtain st5 r5 where c5: "then_facet (s4, e4) (html_facet E n webpage) = (st5, r5)"
    by (metis surj_pair)
  have "R app (fst st5)" using c5 q4 f5 trans by (rule then_facet_rel)
  have chain: "then_facet (then_facet (then_facet (then_facet
               (url_facet E n webpage (app, False))
               (headers_facet E n webpage))
               (script_facet E n webpage))
               (meta_facet E n webpage))
               (html_facet E n webpage) = (st5, r5)"
    using c1 c2 c3 c4 c5 by simp
  note \<open>R app (fst st5)\<close>
  moreover have "app9 = fst st5 \<or> (\<exists>x. app9 = (fst st5)\<lparr>confidenceTotal := Some x\<rparr>)"
    using run chain unfolding has_app_def
    by (auto split: option.splits if_splits prod.splits)
  ultimately show ?thesis using u6 trans by blast
qed

lemma analyze_loop_rel:
  assumes h: "\<And>n app app1 r. has_app E n app webpage = (app1, r) \<Longrightarrow> R app app1"
    and refl: "\<And>a. R a a"
  shows "analyze_loop E webpage apps = ((apps1, d), r) \<Longrightarrow>
         list_all2 (\<lambda>x y. fst y = fst x \<and> R (snd x) (snd y)) apps apps1"
proof (induction apps arbitrary: apps1 d r)
  case Nil
  then show ?case by simp
next
  case (Cons x apps)
  obtain n app where x: "x = (n, app)" by (cases x)
  obtain app1 r1 where ha: "has_app E n app webpage = (app1, r1)" by (metis surj_pair)
  have R1: "R app app1" using ha by (rule h)
  have same: "list_all2 (\<lambda>x y. fst y = fst x \<and> R (snd x) (snd y)) apps apps"
    by (simp add: list_all2_same refl)
  show ?case
  proof (cases r1)
    case (Inl e)
    with Cons.prems x ha have "apps1 = (n, app1) # apps" by simp
    with x R1 same show ?thesis by simp
  next
    case (Inr b)
    obtain rest1 d1 r2 where al: "analyze_loop E webpage apps = ((rest1, d1), r2)"
      by (metis surj_pair)
    with Cons.prems x ha Inr have "apps1 = (n, app1) # rest1" by (simp split: if_splits)
    with x R1 Cons.IH[OF al] show ?thesis by simp
  qed
qed

lemma list_all2_map_of:
  "list_all2 (\<lambda>x y. fst y = fst x \<and> R (snd x) (snd y)) xs ys \<Longrightarrow>
   (map_of xs k = None \<and> map_of ys k = None) \<or>
   (\<exists>a b. map_of xs k = Some a \<and> map_of ys k = Some b \<and> R a b)"
  by (induction xs ys rule: list_all2_induct) auto

section \<open>The loops and the firing events\<close>

text \<open>
  Two patterns agree when they have the same expression, the same compiled expression
  and the same weight: \<^verbatim>\<open>_set_detected_app\<close> only replaces the attribute
  \<^verbatim>\<open>confidence\<close> by its integer.  An entry is touched once \<^verbatim>\<open>_set_detected_app\<close>
  has set its flag and created its confidence map.
\<close>

definition pat_eq :: "'rx pattern \<Rightarrow> 'rx pattern \<Rightarrow> bool" where
  "pat_eq p1 p = (map_of p1 ''regex'' = map_of p ''regex''
      \<and> pattern_string p1 = pattern_string p \<and> pattern_weight p1 = pattern_weight p)"

definition touched :: "'rx app \<Rightarrow> bool" where
  "touched app = (detected app = Some True \<and> confidence app \<noteq> None)"




lemma pat_eq_search: "pat_eq p1 p \<Longrightarrow> py_search E p1 v = py_search E p v"
  by (simp add: pat_eq_def py_search_def)








definition stage :: "(string \<times> int) list \<Rightarrow> 'rx app \<Rightarrow> 'rx app \<Rightarrow> bool" where
  "stage evs app app1 =
     (confidence_map app1 = record_events evs (confidence_map app)
      \<and> ((evs \<noteq> [] \<or> touched app) \<longrightarrow> touched app1))"







section \<open>What \<^verbatim>\<open>_has_app\<close> does when it returns\<close>




lemma stage_field [simp]:
  "stage evs app (a\<lparr>url := u\<rparr>) = stage evs app a"
  "stage evs app (a\<lparr>headers := h\<rparr>) = stage evs app a"
  "stage evs app (a\<lparr>script := u\<rparr>) = stage evs app a"
  "stage evs app (a\<lparr>meta := h\<rparr>) = stage evs app a"
  "stage evs app (a\<lparr>html := u\<rparr>) = stage evs app a"
  "stage evs app (a\<lparr>confidenceTotal := t\<rparr>) = stage evs app a"
  by (simp_all add: stage_def confidence_map_def touched_def)









section \<open>The sum over the confidence map\<close>








section \<open>The closure under implication (C1)\<close>


lemma implied_loop_closed:
  "implied_apps = get_implied_apps_inner apps all_implied_apps \<or> all_implied_apps = {} \<Longrightarrow>
   X \<subseteq> all_implied_apps \<union> implied_apps \<Longrightarrow>
   X \<subseteq> implied_loop apps all_implied_apps implied_apps \<and>
   get_implied_apps_inner apps (implied_loop apps all_implied_apps implied_apps)
     \<subseteq> implied_loop apps all_implied_apps implied_apps"
proof (induction apps all_implied_apps implied_apps rule: implied_loop.induct)
  case (1 apps al im)
  show ?case
  proof (cases "im \<subseteq> al")
    case True
    with "1.prems" have "X \<subseteq> al" by auto
    moreover have "get_implied_apps_inner apps al \<subseteq> al"
      using "1.prems"(1) True by (auto simp: get_implied_apps_inner_def)
    ultimately show ?thesis using True by simp
  next
    case False
    have "X \<subseteq> (al \<union> im) \<union> get_implied_apps_inner apps (al \<union> im)"
      using "1.prems"(2) by auto
    with "1.IH"[OF False] False show ?thesis by simp
  qed
qed

lemma get_implied_apps_closed:
  "get_implied_apps_inner apps detected_apps \<subseteq> get_implied_apps apps detected_apps \<and>
   get_implied_apps_inner apps (get_implied_apps apps detected_apps)
     \<subseteq> get_implied_apps apps detected_apps"
  unfolding get_implied_apps_def by (rule implied_loop_closed) auto

lemma has_app_implies:
  "has_app E n app webpage = (app1, r) \<Longrightarrow> implies app1 = implies app"
  by (rule has_app_rel[where R="\<lambda>a b. implies b = implies a" and E=E and n=n])
     (auto dest: set_detected_app_implies)

lemma analyze_loop_detected:
  "analyze_loop E webpage apps = ((apps1, d), r) \<Longrightarrow> d \<subseteq> fst ` set apps"
proof (induction apps arbitrary: apps1 d r)
  case Nil
  then show ?case by simp
next
  case (Cons x apps)
  obtain n app where x: "x = (n, app)" by (cases x)
  obtain app1 r1 where ha: "has_app E n app webpage = (app1, r1)" by (metis surj_pair)
  show ?case
  proof (cases r1)
    case (Inl e)
    with Cons.prems x ha show ?thesis by simp
  next
    case (Inr b)
    obtain rest1 d1 r2 where al: "analyze_loop E webpage apps = ((rest1, d1), r2)"
      by (metis surj_pair)
    have "d1 \<subseteq> fst ` set apps" using al by (rule Cons.IH)
    moreover have "d \<subseteq> insert n d1" using Cons.prems x ha Inr al by (auto split: if_splits)
    ultimately show ?thesis using x by auto
  qed
qed

lemma inner_cong:
  "list_all2 (\<lambda>x y. fst y = fst x \<and> implies (snd y) = implies (snd x)) apps apps1 \<Longrightarrow>
   get_implied_apps_inner apps1 S = get_implied_apps_inner apps S"
proof -
  assume l: "list_all2 (\<lambda>x y. fst y = fst x \<and> implies (snd y) = implies (snd x)) apps apps1"
  have "(case map_of apps1 a of None \<Rightarrow> {} | Some ap \<Rightarrow> set (implies ap))
      = (case map_of apps a of None \<Rightarrow> {} | Some ap \<Rightarrow> set (implies ap))" for a
    using list_all2_map_of[OF l, of a] by auto
  then show ?thesis by (simp add: get_implied_apps_inner_def)
qed

lemma analyze_closed:
  assumes run: "analyze E apps webpage = (apps1, Inr result)"
    and T: "T \<in> result"
    and entry: "map_of apps T = Some app"
  shows "set (implies app) \<subseteq> result"
proof -
  obtain d where al: "analyze_loop E webpage apps = ((apps1, d), None)"
    and res: "result = d \<union> get_implied_apps apps1 d"
    using run unfolding analyze_def by (auto split: prod.splits option.splits)
  have l: "list_all2 (\<lambda>x y. fst y = fst x \<and> implies (snd y) = implies (snd x)) apps apps1"
    using al by (rule analyze_loop_rel[rotated 2]) (auto dest: has_app_implies)
  have inner: "get_implied_apps_inner apps1 S = get_implied_apps_inner apps S" for S
    using l by (rule inner_cong)
  have "set (implies app) \<subseteq> get_implied_apps_inner apps result"
    using T entry by (auto simp: get_implied_apps_inner_def)
  also have "\<dots> = get_implied_apps_inner apps1 d \<union> get_implied_apps_inner apps1 (get_implied_apps apps1 d)"
    unfolding res inner by (auto simp: get_implied_apps_inner_def)
  also have "\<dots> \<subseteq> get_implied_apps apps1 d"
    using get_implied_apps_closed[of apps1 d] by blast
  finally show ?thesis using res by blast
qed

text \<open>
  C1.  \<^verbatim>\<open>_get_implied_apps\<close> is a total function: the loop ends for every store and
  every set of names, because each round adds a name of the finitely many names in
  the \<^verbatim>\<open>implies\<close> lists (the termination proof of \<^const>\<open>implied_loop\<close>), also
  when the implications form a cycle.  The set that \<^verbatim>\<open>analyze\<close> returns is closed:
  for every name in it that is an entry of the store, the names in the entry's
  \<^verbatim>\<open>implies\<close> list are in it too.
\<close>

theorem implied_closure:
  assumes "analyze E apps webpage = (apps1, Inr result)"
    and "T \<in> result"
    and "map_of apps T = Some app"
  shows "set (implies app) \<subseteq> result"
  using assms by (rule analyze_closed)

theorem implied_closure_witness:
  "snd (analyze example_re c1_apps c1_page) = Inr {''A'', ''B'', ''C''}
   \<and> ''B'' \<in> {''A'', ''B'', ''C''}
   \<and> map_of c1_apps ''B'' = Some c1_app_b
   \<and> set (implies c1_app_b) \<subseteq> {''A'', ''B'', ''C''}"
proof -
  have r: "snd (analyze example_re c1_apps c1_page) = Inr {''A'', ''B'', ''C''}"
    by code_simp
  then have run: "analyze example_re c1_apps c1_page
                  = (fst (analyze example_re c1_apps c1_page), Inr {''A'', ''B'', ''C''})"
    by (simp add: prod_eq_iff)
  have T: "''B'' \<in> {''A'', ''B'', ''C''}" by simp
  have entry: "map_of c1_apps ''B'' = Some c1_app_b" by (simp add: c1_apps_def)
  from implied_closure[OF run T entry] r T entry show ?thesis by simp
qed

section \<open>Category names (C8)\<close>

lemma map_result_Inl:
  "x \<in> set xs \<Longrightarrow> f x = Inl e \<Longrightarrow> (\<And>y e1. f y = Inl e1 \<Longrightarrow> e1 = e) \<Longrightarrow>
   map_result f xs = Inl e"
proof (induction xs)
  case Nil
  from Nil(1) show ?case by simp
next
  case (Cons y ys)
  show ?case
  proof (cases "f y")
    case (Inl e1)
    then have "e1 = e" by (rule Cons.prems(3))
    with Inl show ?thesis by simp
  next
    case (Inr b)
    with Cons.prems(1,2) have "x \<in> set ys" by auto
    then have "map_result f ys = Inl e" using Cons.prems(2,3) by (rule Cons.IH)
    with Inr show ?thesis by simp
  qed
qed

lemma map_result_Inr:
  "(\<And>x. x \<in> set xs \<Longrightarrow> f x = Inr (g x)) \<Longrightarrow> map_result f xs = Inr (map g xs)"
  by (induction xs) auto

lemma category_name_unknown:
  "map_of categories (str_int k) = None \<Longrightarrow> category_name categories k = Inl AttributeError"
  by (simp add: category_name_def)

lemma category_name_error:
  "category_name categories k = Inl e \<Longrightarrow> e = AttributeError"
  by (auto simp: category_name_def split: option.splits pyval.splits)

text \<open>
  An id without an entry in the category table makes the whole lookup raise
  \<^verbatim>\<open>AttributeError\<close>.
\<close>

lemma get_categories_unknown_id:
  assumes "map_of apps app_name = Some app" and "cats app = Some ns" and "k \<in> set ns"
    and "map_of categories (str_int k) = None"
  shows "get_categories categories apps app_name = Inl AttributeError"
  unfolding get_categories_def Let_def
  using assms
  by (auto intro!: map_result_Inl[of k] category_name_unknown dest: category_name_error)

text \<open>
  C8.  For the entry with the category ids 1 and 7 and a table that has only the id 1,
  the lookup of the entry's categories raises \<^verbatim>\<open>AttributeError\<close> (the claim has it
  return the name of 1 and the empty string).  With the id 7 in the table it returns one
  name per id, and a name that is no entry gives the empty list.
\<close>

theorem get_categories_unknown_id_raises:
  "get_categories c8_categories [(''A'', c8_app)] ''A'' = Inl AttributeError
   \<and> get_categories ((''7'', PDict []) # c8_categories) [(''A'', c8_app)] ''A''
       = Inr [PStr ''CMS'', PStr []]
   \<and> get_categories c8_categories [(''A'', c8_app)] ''B'' = Inr []"
  by code_simp

section \<open>Implied names that are no entries (C10)\<close>

lemma analyze_keys:
  assumes "analyze E apps webpage = (apps1, r)"
  shows "(map_of apps1 n = None) = (map_of apps n = None)"
proof -
  obtain d r1 where al: "analyze_loop E webpage apps = ((apps1, d), r1)"
    using assms unfolding analyze_def by (auto split: prod.splits option.splits)
  have "list_all2 (\<lambda>x y. fst y = fst x \<and> True) apps apps1"
    using al by (rule analyze_loop_rel[rotated 2]) auto
  from list_all2_map_of[OF this, of n] show ?thesis by auto
qed

lemma inner_unknown: "map_of apps n = None \<Longrightarrow> get_implied_apps_inner apps {n} = {}"
  by (simp add: get_implied_apps_inner_def)

text \<open>
  C10.  A name in the \<^verbatim>\<open>implies\<close> list of an entry in the returned set is in the
  returned set also when the store has no entry of that name; the closure takes no
  implications from such a name (the \<^verbatim>\<open>KeyError\<close> is caught); \<^verbatim>\<open>get_versions\<close>
  raises \<^verbatim>\<open>KeyError\<close> for it, and so does \<^verbatim>\<open>analyze_with_versions\<close>.
\<close>

theorem unknown_implied_name:
  assumes run: "analyze E apps webpage = (apps1, Inr result)"
    and T: "T \<in> result"
    and entry: "map_of apps T = Some app"
    and n: "n \<in> set (implies app)"
    and unknown: "map_of apps n = None"
  shows "n \<in> result \<and> get_implied_apps_inner apps1 {n} = {}
         \<and> get_versions apps1 n = Inl KeyError
         \<and> analyze_with_versions E apps webpage = (apps1, Inl KeyError)"
proof -
  have in_result: "n \<in> result" using analyze_closed[OF run T entry] n by blast
  have u1: "map_of apps1 n = None" using analyze_keys[OF run] unknown by simp
  have gv: "get_versions apps1 n = Inl KeyError" using u1 by (simp add: get_versions_def)
  have "analyze_with_versions E apps webpage = (apps1, Inl KeyError)"
    unfolding analyze_with_versions_def using run in_result gv by auto
  with in_result gv inner_unknown[OF u1] show ?thesis by simp
qed

theorem unknown_implied_name_witness:
  "snd (analyze example_re c1_apps c1_page) = Inr {''A'', ''B'', ''C''}
   \<and> map_of c1_apps ''B'' = Some c1_app_b
   \<and> ''C'' \<in> set (implies c1_app_b)
   \<and> map_of c1_apps ''C'' = None
   \<and> get_versions (fst (analyze example_re c1_apps c1_page)) ''C'' = Inl KeyError
   \<and> snd (analyze_with_versions example_re c1_apps c1_page) = Inl KeyError"
proof -
  have r: "snd (analyze example_re c1_apps c1_page) = Inr {''A'', ''B'', ''C''}"
    by code_simp
  then have run: "analyze example_re c1_apps c1_page
                  = (fst (analyze example_re c1_apps c1_page), Inr {''A'', ''B'', ''C''})"
    by (simp add: prod_eq_iff)
  have T: "''B'' \<in> {''A'', ''B'', ''C''}" by simp
  have entry: "map_of c1_apps ''B'' = Some c1_app_b" by (simp add: c1_apps_def)
  have n: "''C'' \<in> set (implies c1_app_b)" by (simp add: c1_app_b_def)
  have unknown: "map_of c1_apps ''C'' = None" by (simp add: c1_apps_def)
  from unknown_implied_name[OF run T entry n unknown] r entry n unknown
  show ?thesis by simp
qed

section \<open>The ternary operator of version templates (C5)\<close>













section \<open>The order of the versions (C6)\<close>

lemma set_insert_version: "set (insert_version v ws) = insert v (set ws)"
  by (induction ws) auto

lemma insert_version_sorted:
  "sorted (map length ws) \<Longrightarrow> sorted (map length (insert_version v ws))"
  by (induction ws) (auto simp: sort_app_versions_def set_insert_version)

lemma foldl_insert_version_sorted:
  "sorted (map length acc) \<Longrightarrow>
   sorted (map length (foldl (\<lambda>acc v. insert_version v acc) acc vs))"
  by (induction vs arbitrary: acc) (auto intro: insert_version_sorted)

lemma sorted_versions_sorted: "sorted (map length (sorted_versions vs))"
  unfolding sorted_versions_def by (rule foldl_insert_version_sorted) simp

lemma set_app_version_sorted:
  "versions (set_app_version app) = Some vs \<Longrightarrow> sorted (map length vs)"
  by (auto simp: set_app_version_def sorted_versions_sorted split: option.splits)

lemma detect_version_sorted:
  assumes "detect_version E pattern v app = (app1, None)"
    and "map_of pattern ''version'' = Some ver"
    and "versions app1 = Some vs"
  shows "sorted (map length vs)"
  using assms unfolding detect_version_def
  by (auto split: sum.splits pyval.splits if_splits dest: set_app_version_sorted)

lemma set_detected_app_sorted:
  assumes run: "set_detected_app E app_name app app_type pattern v key = ((app1, pattern1), None)"
    and ver: "map_of pattern ''version'' = Some ver"
    and vs: "versions app1 = Some vs"
  shows "sorted (map length vs)"
proof -
  obtain w app0 where
    dv: "detect_version E (AList.update ''confidence'' (PInt w) pattern) v app0 = (app1, None)"
    using run unfolding set_detected_app_def Let_def
    by (auto split: sum.splits prod.splits)
  have "map_of (AList.update ''confidence'' (PInt w) pattern) ''version'' = Some ver"
    using ver by (simp add: update_conv')
  with dv show ?thesis using vs by (rule detect_version_sorted)
qed

text \<open>
  C6.  When \<^verbatim>\<open>_set_detected_app\<close> has run its version block (the pattern has a
  version attribute and nothing was raised), the version list of the entry is sorted
  by length, shorter strings first.  The order is by length, not by version:
  \<^verbatim>\<open>1.2\<close> comes before \<^verbatim>\<open>1.2.3\<close>, and \<^verbatim>\<open>2\<close> before \<^verbatim>\<open>1.5\<close>.
\<close>

theorem versions_sorted_by_length:
  assumes "set_detected_app E app_name app app_type pattern v key = ((app1, pattern1), None)"
    and "map_of pattern ''version'' = Some ver"
    and "versions app1 = Some vs"
  shows "sorted (map length vs)
       \<and> sorted_versions [''1.2.3'', ''1.2''] = [''1.2'', ''1.2.3'']
       \<and> sorted_versions [''1.5'', ''2''] = [''2'', ''1.5'']"
proof -
  have "sorted_versions [''1.2.3'', ''1.2''] = [''1.2'', ''1.2.3'']
       \<and> sorted_versions [''1.5'', ''2''] = [''2'', ''1.5'']"
    by code_simp
  with set_detected_app_sorted[OF assms] show ?thesis by simp
qed

theorem versions_sorted_by_length_witness:
  "fst (set_detected_app example_re ''A'' version_app ''script'' version_pattern
          ''a-v1.2.3/b-v1.2/c.js'' [])
     = (version_app\<lparr>detected := Some True, confidence := Some [(''script v([0-9.]+)'', 100)],
                      versions := Some [''1.2'', ''1.2.3'']\<rparr>,
        version_pattern @ [(''confidence'', PInt 100)])
   \<and> snd (set_detected_app example_re ''A'' version_app ''script'' version_pattern
          ''a-v1.2.3/b-v1.2/c.js'' []) = None
   \<and> map_of version_pattern ''version'' = Some (PStr [backslash, CHR ''1''])
   \<and> sorted (map length [''1.2'', ''1.2.3''])"
proof -
  have f: "fst (set_detected_app example_re ''A'' version_app ''script'' version_pattern
          ''a-v1.2.3/b-v1.2/c.js'' [])
     = (version_app\<lparr>detected := Some True, confidence := Some [(''script v([0-9.]+)'', 100)],
                      versions := Some [''1.2'', ''1.2.3'']\<rparr>,
        version_pattern @ [(''confidence'', PInt 100)])"
    by code_simp
  have s: "snd (set_detected_app example_re ''A'' version_app ''script'' version_pattern
          ''a-v1.2.3/b-v1.2/c.js'' []) = None"
    by code_simp
  have run: "set_detected_app example_re ''A'' version_app ''script'' version_pattern
          ''a-v1.2.3/b-v1.2/c.js'' []
     = ((version_app\<lparr>detected := Some True, confidence := Some [(''script v([0-9.]+)'', 100)],
                       versions := Some [''1.2'', ''1.2.3'']\<rparr>,
         version_pattern @ [(''confidence'', PInt 100)]), None)"
    using f s by (simp add: prod_eq_iff)
  have ver: "map_of version_pattern ''version'' = Some (PStr [backslash, CHR ''1''])"
    by (simp add: version_pattern_def)
  have vs: "versions (version_app\<lparr>detected := Some True,
                confidence := Some [(''script v([0-9.]+)'', 100)],
                versions := Some [''1.2'', ''1.2.3'']\<rparr>) = Some [''1.2'', ''1.2.3'']"
    by simp
  from versions_sorted_by_length[OF run ver vs] f s ver show ?thesis by simp
qed

section \<open>Results are never reset (C9)\<close>

lemma accumulates_refl: "accumulates a a"
  by (simp add: accumulates_def)

lemma accumulates_trans: "accumulates a b \<Longrightarrow> accumulates b c \<Longrightarrow> accumulates a c"
  by (simp add: accumulates_def) (meson subset_trans)

lemma set_sorted_versions: "set (sorted_versions vs) = set vs"
proof -
  have "set (foldl (\<lambda>acc v. insert_version v acc) acc vs) = set acc \<union> set vs" for acc
    by (induction vs arbitrary: acc) (auto simp: set_insert_version)
  then show ?thesis by (simp add: sorted_versions_def)
qed

lemma add_version_accumulates: "accumulates app (add_version v app)"
  by (auto simp: add_version_def accumulates_def version_list_def confidence_map_def
      split: option.splits)

lemma fold_add_version_accumulates:
  "accumulates app (fold (\<lambda>m. add_version (f m)) ms app)"
proof (induction ms arbitrary: app)
  case Nil
  show ?case by (simp add: accumulates_refl)
next
  case (Cons m ms)
  have "accumulates (add_version (f m) app) (fold (\<lambda>m. add_version (f m)) ms (add_version (f m) app))"
    by (rule Cons.IH)
  with add_version_accumulates[of app "f m"]
  have "accumulates app (fold (\<lambda>m. add_version (f m)) ms (add_version (f m) app))"
    by (rule accumulates_trans)
  then show ?case by simp
qed

lemma set_app_version_accumulates: "accumulates app (set_app_version app)"
  by (auto simp: set_app_version_def accumulates_def version_list_def confidence_map_def
      set_sorted_versions split: option.splits)

lemma detect_version_accumulates:
  assumes run: "detect_version E pattern v app = (app1, r)"
  shows "accumulates app app1"
proof (cases "map_of pattern ''version''")
  case None
  with run have "app1 = app" by (simp add: detect_version_def)
  then show ?thesis by (simp add: accumulates_refl)
next
  case (Some ver)
  show ?thesis
  proof (cases "py_findall E pattern v")
    case (Inl e)
    with Some run have "app1 = app" by (simp add: detect_version_def)
    then show ?thesis by (simp add: accumulates_refl)
  next
    case (Inr allmatches)
    have "app1 = app \<or> app1 = set_app_version app
          \<or> (\<exists>f. app1 = set_app_version (fold (\<lambda>m. add_version (f m)) allmatches app))"
      using run Some Inr unfolding detect_version_def
      by (cases ver) (auto split: if_splits)
    then show ?thesis
      using accumulates_refl set_app_version_accumulates
        accumulates_trans[OF fold_add_version_accumulates set_app_version_accumulates]
      by metis
  qed
qed

lemma confidence_written_accumulates:
  "accumulates app
     (app\<lparr>detected := Some True, confidence := Some (confidence_map app)\<rparr>)"
  by (auto simp: accumulates_def version_list_def confidence_map_def split: option.splits)

lemma confidence_update_accumulates:
  "accumulates app (app\<lparr>confidence := Some (AList.update l w (confidence_map app))\<rparr>)"
  by (auto simp: accumulates_def version_list_def confidence_map_def dom_update
      split: option.splits)

lemma set_detected_app_accumulates:
  assumes run: "set_detected_app E n app ty p v k = ((app1, p1), r)"
  shows "accumulates app app1"
proof -
  define app0 where "app0 = app\<lparr>detected := Some True, confidence := Some (confidence_map app)\<rparr>"
  have a0: "accumulates app app0"
    unfolding app0_def by (rule confidence_written_accumulates)
  have cm0: "confidence_map app0 = confidence_map app"
    by (simp add: app0_def confidence_map_def)
  have "app1 = app0
        \<or> (\<exists>l w pat. detect_version E pat v
               (app0\<lparr>confidence := Some (AList.update l w (confidence_map app0))\<rparr>) = (app1, r))"
    using run unfolding set_detected_app_def Let_def app0_def[symmetric] cm0
      confidence_map_def[symmetric]
    by (auto split: sum.splits prod.splits)
  then show ?thesis
  proof
    assume "app1 = app0"
    with a0 show ?thesis by simp
  next
    assume "\<exists>l w pat. detect_version E pat v
               (app0\<lparr>confidence := Some (AList.update l w (confidence_map app0))\<rparr>) = (app1, r)"
    then obtain l w pat where
      dv: "detect_version E pat v
             (app0\<lparr>confidence := Some (AList.update l w (confidence_map app0))\<rparr>) = (app1, r)"
      by blast
    have "accumulates app0 (app0\<lparr>confidence := Some (AList.update l w (confidence_map app0))\<rparr>)"
      by (rule confidence_update_accumulates)
    with a0 have "accumulates app (app0\<lparr>confidence := Some (AList.update l w (confidence_map app0))\<rparr>)"
      by (rule accumulates_trans)
    then show ?thesis using detect_version_accumulates[OF dv] by (rule accumulates_trans)
  qed
qed

lemma has_app_accumulates:
  assumes run: "has_app E n app webpage = (app1, r)"
  shows "accumulates app app1"
proof (rule has_app_rel[where R=accumulates and E=E and n=n, OF _ _ _ _ _ _ _ _ _ run])
  show "accumulates a b" if "set_detected_app E n a ty p v k = ((b, p1), r1)"
    for a :: "'a app" and p v k ty b p1 r1
    using that by (rule set_detected_app_accumulates)
  show "accumulates a a" for a :: "'a app" by (rule accumulates_refl)
  show "accumulates a c" if "accumulates a b" "accumulates b c" for a b c :: "'a app"
    using that by (rule accumulates_trans)
  show "accumulates a (a\<lparr>url := x\<rparr>)" for a :: "'a app" and x
    by (simp add: accumulates_def version_list_def confidence_map_def)
  show "accumulates a (a\<lparr>headers := x\<rparr>)" for a :: "'a app" and x
    by (simp add: accumulates_def version_list_def confidence_map_def)
  show "accumulates a (a\<lparr>script := x\<rparr>)" for a :: "'a app" and x
    by (simp add: accumulates_def version_list_def confidence_map_def)
  show "accumulates a (a\<lparr>meta := x\<rparr>)" for a :: "'a app" and x
    by (simp add: accumulates_def version_list_def confidence_map_def)
  show "accumulates a (a\<lparr>html := x\<rparr>)" for a :: "'a app" and x
    by (simp add: accumulates_def version_list_def confidence_map_def)
  show "accumulates a (a\<lparr>confidenceTotal := Some x\<rparr>)" for a :: "'a app" and x
    by (simp add: accumulates_def version_list_def confidence_map_def)
qed

lemma analyze_accumulates:
  assumes "analyze E apps webpage = (apps1, r)"
  shows "list_all2 (\<lambda>x y. fst y = fst x \<and> accumulates (snd x) (snd y)) apps apps1"
proof -
  obtain d r1 where al: "analyze_loop E webpage apps = ((apps1, d), r1)"
    using assms unfolding analyze_def by (auto split: prod.splits option.splits)
  show ?thesis
    using al
  proof (rule analyze_loop_rel[rotated 2])
    show "accumulates a b" if "has_app E n a webpage = (b, r2)" for n a b r2
      using that by (rule has_app_accumulates)
    show "accumulates a a" for a :: "'a app" by (rule accumulates_refl)
  qed
qed

lemma analyze_all_accumulates:
  "map_of apps n = Some app \<Longrightarrow>
   \<exists>app1. map_of (analyze_all E apps pages) n = Some app1 \<and> accumulates app app1"
proof (induction pages arbitrary: apps app)
  case Nil
  then show ?case by (simp add: accumulates_refl)
next
  case (Cons webpage pages)
  obtain apps1 r where run: "analyze E apps webpage = (apps1, r)" by (metis surj_pair)
  from list_all2_map_of[OF analyze_accumulates[OF run], of n] Cons.prems
  obtain b where b: "map_of apps1 n = Some b" "accumulates app b" by auto
  from Cons.IH[OF b(1)] obtain c where
    c: "map_of (analyze_all E apps1 pages) n = Some c" "accumulates b c" by blast
  from b(2) c(2) have "accumulates app c" by (rule accumulates_trans)
  with c(1) run show ?case by simp
qed

text \<open>
  C9.  No operation removes what an analysis wrote on an entry.  After any sequence of
  analyses on one instance, whether they return or raise, every entry still has every
  version and every label of its confidence map that it had before, and the keys
  \<^verbatim>\<open>versions\<close>, \<^verbatim>\<open>confidence\<close> and \<^verbatim>\<open>confidenceTotal\<close> stay once they are set;
  so \<^verbatim>\<open>get_versions\<close> still returns the versions found on earlier pages, and
  \<^verbatim>\<open>get_confidence\<close> still returns a total.
\<close>

theorem results_accumulate:
  assumes "map_of apps n = Some app"
  shows "\<exists>app1. map_of (analyze_all E apps pages) n = Some app1 \<and> accumulates app app1
           \<and> get_versions (analyze_all E apps pages) n = Inr (version_list app1)
           \<and> set (version_list app) \<subseteq> set (version_list app1)
           \<and> get_confidence (analyze_all E apps pages) n = Inr (confidenceTotal app1)
           \<and> (confidenceTotal app \<noteq> None \<longrightarrow> confidenceTotal app1 \<noteq> None)"
proof -
  from analyze_all_accumulates[OF assms] obtain app1 where
    a: "map_of (analyze_all E apps pages) n = Some app1" "accumulates app app1" by blast
  have "get_versions (analyze_all E apps pages) n = Inr (version_list app1)"
    using a(1) by (simp add: get_versions_def version_list_def)
  moreover have "get_confidence (analyze_all E apps pages) n = Inr (confidenceTotal app1)"
    using a(1) by (simp add: get_confidence_def)
  ultimately show ?thesis using a by (auto simp: accumulates_def)
qed

theorem results_accumulate_witness:
  "map_of c9_apps ''A'' = Some version_app
   \<and> get_versions (analyze_all example_re c9_apps [c9_page2]) ''A'' = Inr []
   \<and> get_versions (analyze_all example_re c9_apps [c9_page1, c9_page2]) ''A''
       = Inr [''1.2'', ''1.2.3'']
   \<and> get_confidence (analyze_all example_re c9_apps [c9_page1, c9_page2]) ''A''
       = Inr (Some 100)
   \<and> (\<exists>app1. map_of (analyze_all example_re c9_apps [c9_page1, c9_page2]) ''A'' = Some app1
          \<and> accumulates version_app app1)"
proof -
  have e: "map_of c9_apps ''A'' = Some version_app" by (simp add: c9_apps_def)
  have g: "get_versions (analyze_all example_re c9_apps [c9_page2]) ''A'' = Inr []
   \<and> get_versions (analyze_all example_re c9_apps [c9_page1, c9_page2]) ''A''
       = Inr [''1.2'', ''1.2.3'']
   \<and> get_confidence (analyze_all example_re c9_apps [c9_page1, c9_page2]) ''A''
       = Inr (Some 100)"
    by code_simp
  from results_accumulate[OF e, of example_re "[c9_page1, c9_page2]"] e g
  show ?thesis by blast
qed

section \<open>All occurrences give a version (C4)\<close>

lemma add_version_mem: "v \<noteq> [] \<Longrightarrow> v \<in> set (version_list (add_version v app))"
  by (auto simp: add_version_def version_list_def split: option.splits)

lemma fold_add_version_mem:
  "m \<in> set ms \<Longrightarrow> f m \<noteq> [] \<Longrightarrow>
   f m \<in> set (version_list (fold (\<lambda>m. add_version (f m)) ms app))"
proof (induction ms arbitrary: app)
  case Nil
  then show ?case by simp
next
  case (Cons x ms)
  show ?case
  proof (cases "m = x")
    case True
    have "f m \<in> set (version_list (add_version (f m) app))"
      using Cons.prems(2) by (rule add_version_mem)
    moreover have "accumulates (add_version (f m) app)
                     (fold (\<lambda>m. add_version (f m)) ms (add_version (f m) app))"
      by (rule fold_add_version_accumulates)
    ultimately show ?thesis using True by (auto simp: accumulates_def)
  next
    case False
    with Cons.prems have "m \<in> set ms" by simp
    then have "f m \<in> set (version_list (fold (\<lambda>m. add_version (f m)) ms (add_version (f x) app)))"
      using Cons.prems(2) by (rule Cons.IH)
    then show ?thesis by simp
  qed
qed

lemma py_findall_update:
  "py_findall E (AList.update ''confidence'' c pattern) v = py_findall E pattern v"
  by (simp add: py_findall_def update_conv')

lemma set_detected_app_all_occurrences:
  assumes run: "set_detected_app E app_name app app_type pattern v key = ((app1, pattern1), None)"
    and ver: "map_of pattern ''version'' = Some (PStr template)"
    and fa: "py_findall E pattern v = Inr allmatches"
    and m: "m \<in> set allmatches"
    and ne: "resolve_version template m \<noteq> []"
  shows "resolve_version template m \<in> set (version_list app1)"
proof -
  obtain w app0 where
    dv: "detect_version E (AList.update ''confidence'' (PInt w) pattern) v app0 = (app1, None)"
    using run unfolding set_detected_app_def Let_def
    by (auto split: sum.splits prod.splits)
  have "map_of (AList.update ''confidence'' (PInt w) pattern) ''version'' = Some (PStr template)"
    using ver by (simp add: update_conv')
  with dv fa have "app1 = set_app_version
      (fold (\<lambda>matches. add_version (resolve_version template matches)) allmatches app0)"
    by (simp add: detect_version_def py_findall_update)
  moreover have "resolve_version template m \<in> set (version_list
      (fold (\<lambda>matches. add_version (resolve_version template matches)) allmatches app0))"
    using m ne by (rule fold_add_version_mem)
  ultimately show ?thesis
    using set_app_version_accumulates[of "fold (\<lambda>matches. add_version (resolve_version template matches)) allmatches app0"]
    by (auto simp: accumulates_def)
qed

lemma version_pattern_prepared:
  "prepare_pattern example_re
     (PStr (''v([0-9.]+)'' @ [backslash] @ '';version:'' @ [backslash] @ ''1''))
   = Inr version_pattern"
  by code_simp

text \<open>
  C4, as stated, fails on its example: in the value \<^verbatim>\<open>script-v2.3.1.js\<close> the class
  \<^verbatim>\<open>[0-9.]\<close> also takes the dot before \<^verbatim>\<open>js\<close>, so the group and with it the
  version is \<^verbatim>\<open>2.3.1.\<close> and not \<^verbatim>\<open>2.3.1\<close>.
\<close>

theorem version_example_counterexample:
  "py_findall example_re version_pattern ''script-v2.3.1.js'' = Inr [MStr ''2.3.1.'']
   \<and> snd (set_detected_app example_re ''A'' version_app ''script'' version_pattern
            ''script-v2.3.1.js'' []) = None
   \<and> versions (fst (fst (set_detected_app example_re ''A'' version_app ''script''
                 version_pattern ''script-v2.3.1.js'' []))) = Some [''2.3.1.'']
   \<and> versions (fst (fst (set_detected_app example_re ''A'' version_app ''script''
                 version_pattern ''script-v2.3.1.js'' []))) \<noteq> Some [''2.3.1'']"
  by code_simp

text \<open>
  C4, amended.  Every occurrence that \<^verbatim>\<open>findall\<close> returns for the matched value is
  resolved, and each non-empty result is in the version list afterwards; a bare
  string is resolved as the tuple of that one group.  For the value
  \<^verbatim>\<open>script-v2.3.1.js\<close>, the expression \<^verbatim>\<open>v([0-9.]+)\<close> and the template \<^verbatim>\<open>\1\<close>
  the version list is exactly \<^verbatim>\<open>2.3.1.\<close>, with the dot; it is \<^verbatim>\<open>2.3.1\<close> for
  the value \<^verbatim>\<open>script-v2.3.1/x.js\<close>.
\<close>

theorem all_occurrences_resolved:
  assumes "set_detected_app E app_name app app_type pattern v key = ((app1, pattern1), None)"
    and "map_of pattern ''version'' = Some (PStr template)"
    and "py_findall E pattern v = Inr allmatches"
    and "m \<in> set allmatches"
    and "resolve_version template m \<noteq> []"
  shows "resolve_version template m \<in> set (version_list app1)
       \<and> resolve_version template (MStr s) = resolve_version template (MTuple [s])
       \<and> versions (fst (fst (set_detected_app example_re ''A'' version_app ''script''
                     version_pattern ''script-v2.3.1.js'' []))) = Some [''2.3.1.'']
       \<and> versions (fst (fst (set_detected_app example_re ''A'' version_app ''script''
                     version_pattern ''script-v2.3.1/x.js'' []))) = Some [''2.3.1'']"
proof -
  have "versions (fst (fst (set_detected_app example_re ''A'' version_app ''script''
                     version_pattern ''script-v2.3.1.js'' []))) = Some [''2.3.1.'']
       \<and> versions (fst (fst (set_detected_app example_re ''A'' version_app ''script''
                     version_pattern ''script-v2.3.1/x.js'' []))) = Some [''2.3.1'']"
    by code_simp
  moreover have "resolve_version template (MStr s) = resolve_version template (MTuple [s])"
    by (simp add: resolve_version_def)
  ultimately show ?thesis using set_detected_app_all_occurrences[OF assms] by simp
qed

theorem all_occurrences_resolved_witness:
  "snd (set_detected_app example_re ''A'' version_app ''script'' version_pattern
          ''a-v1.2.3/b-v1.2/c.js'' []) = None
   \<and> map_of version_pattern ''version'' = Some (PStr [backslash, CHR ''1''])
   \<and> py_findall example_re version_pattern ''a-v1.2.3/b-v1.2/c.js''
       = Inr [MStr ''1.2.3'', MStr ''1.2'']
   \<and> MStr ''1.2'' \<in> set [MStr ''1.2.3'', MStr ''1.2'']
   \<and> resolve_version [backslash, CHR ''1''] (MStr ''1.2'') = ''1.2''
   \<and> ''1.2'' \<in> set (version_list (fst (fst (set_detected_app example_re ''A'' version_app
                      ''script'' version_pattern ''a-v1.2.3/b-v1.2/c.js'' []))))"
proof -
  have s: "snd (set_detected_app example_re ''A'' version_app ''script'' version_pattern
          ''a-v1.2.3/b-v1.2/c.js'' []) = None"
    by code_simp
  then have run: "set_detected_app example_re ''A'' version_app ''script'' version_pattern
          ''a-v1.2.3/b-v1.2/c.js'' []
      = ((fst (fst (set_detected_app example_re ''A'' version_app ''script'' version_pattern
                      ''a-v1.2.3/b-v1.2/c.js'' [])),
          snd (fst (set_detected_app example_re ''A'' version_app ''script'' version_pattern
                      ''a-v1.2.3/b-v1.2/c.js'' []))), None)"
    by (simp add: prod_eq_iff)
  have ver: "map_of version_pattern ''version'' = Some (PStr [backslash, CHR ''1''])"
    by (simp add: version_pattern_def)
  have fa: "py_findall example_re version_pattern ''a-v1.2.3/b-v1.2/c.js''
       = Inr [MStr ''1.2.3'', MStr ''1.2'']"
    by code_simp
  have m: "MStr ''1.2'' \<in> set [MStr ''1.2.3'', MStr ''1.2'']" by simp
  have r: "resolve_version [backslash, CHR ''1''] (MStr ''1.2'') = ''1.2''" by code_simp
  then have ne: "resolve_version [backslash, CHR ''1''] (MStr ''1.2'') \<noteq> []" by simp
  from all_occurrences_resolved[OF run ver fa m ne] s ver fa m r show ?thesis by simp
qed

section \<open>Preparing an entry twice (C7)\<close>

definition lowered :: "(string \<times> 'a) list \<Rightarrow> bool" where
  "lowered obj = (distinct (map fst obj) \<and> (\<forall>k\<in>set (map fst obj). py_lower k = k))"

lemma lower_char_idem: "lower_char (lower_char c) = lower_char c"
  by (auto simp: lower_char_def is_upper_def)

lemma py_lower_idem: "py_lower (py_lower s) = py_lower s"
  by (simp add: py_lower_def lower_char_idem)

lemma update_new: "k \<notin> fst ` set al \<Longrightarrow> AList.update k v al = al @ [(k, v)]"
  by (induction al) auto

lemma fold_lower_keys_lowered:
  "lowered acc \<Longrightarrow> lowered (fold (\<lambda>(k, v) d. AList.update (py_lower k) v d) obj acc)"
proof (induction obj arbitrary: acc)
  case Nil
  then show ?case by simp
next
  case (Cons x obj)
  obtain k v where x: "x = (k, v)" by (cases x)
  have "lowered (AList.update (py_lower k) v acc)"
    using Cons.prems
    by (auto simp: lowered_def distinct_update dom_update py_lower_idem)
  then show ?case using Cons.IH x by simp
qed

lemma fold_lower_keys_same:
  "lowered (acc @ obj) \<Longrightarrow>
   fold (\<lambda>(k, v) d. AList.update (py_lower k) v d) obj acc = acc @ obj"
proof (induction obj arbitrary: acc)
  case Nil
  then show ?case by simp
next
  case (Cons x obj)
  obtain k v where x: "x = (k, v)" by (cases x)
  have k: "py_lower k = k" "k \<notin> fst ` set acc"
    using Cons.prems x by (auto simp: lowered_def)
  then have "AList.update (py_lower k) v acc = acc @ [(k, v)]"
    by (simp add: update_new)
  moreover have "lowered ((acc @ [(k, v)]) @ obj)" using Cons.prems x by simp
  ultimately show ?case using Cons.IH[of "acc @ [(k, v)]"] x by simp
qed

lemma ensure_list_map: "\<exists>l. map_of (ensure_list key app) = (map_of app)(key \<mapsto> PList l)"
proof (cases "map_of app key")
  case None
  then show ?thesis by (auto simp: ensure_list_def update_conv')
next
  case (Some v)
  show ?thesis
  proof (cases v)
    case (PList l)
    with Some have e: "map_of app = (map_of app)(key \<mapsto> PList l)" by (simp add: map_upd_triv)
    have "ensure_list key app = app" using Some PList by (simp add: ensure_list_def)
    then show ?thesis by (simp only:) (rule exI[of _ l], rule e)
  qed (use Some in \<open>auto simp: ensure_list_def update_conv'\<close>)
qed

lemma ensure_dict_map: "\<exists>v. map_of (ensure_dict key app) = (map_of app)(key \<mapsto> v)"
proof (cases "map_of app key")
  case None
  then show ?thesis by (auto simp: ensure_dict_def update_conv')
next
  case (Some v)
  then have e: "map_of app = (map_of app)(key \<mapsto> v)" by (simp add: map_upd_triv)
  have "ensure_dict key app = app" using Some by (simp add: ensure_dict_def)
  then show ?thesis by (simp only:) (rule exI[of _ v], rule e)
qed

lemma ensure_meta_map:
  assumes "ensure_meta app = Inr app1"
  shows "\<exists>d. map_of app1 = (map_of app)(''meta'' \<mapsto> PDict d)"
proof (cases "map_of app ''meta''")
  case None
  with assms show ?thesis by (simp add: ensure_meta_def)
next
  case (Some v)
  show ?thesis
  proof (cases v)
    case (PDict d)
    with Some have e: "map_of app = (map_of app)(''meta'' \<mapsto> PDict d)"
      by (simp add: map_upd_triv)
    have "app1 = app" using Some PDict assms by (simp add: ensure_meta_def)
    then show ?thesis by (simp only:) (rule exI[of _ d], rule e)
  qed (use Some assms in \<open>auto simp: ensure_meta_def update_conv'\<close>)
qed

lemma lower_keys_map:
  assumes "lower_keys key app = Inr app1"
  shows "\<exists>obj. lowered obj \<and> map_of app1 = (map_of app)(key \<mapsto> PDict obj)"
proof -
  obtain obj where o: "map_of app key = Some (PDict obj)"
    and a: "app1 = AList.update key
                 (PDict (fold (\<lambda>(k, v) d. AList.update (py_lower k) v d) obj [])) app"
    using assms unfolding lower_keys_def by (auto split: option.splits pyval.splits)
  have "lowered (fold (\<lambda>(k, v) d. AList.update (py_lower k) v d) obj ([] :: (string \<times> 'a pyval) list))"
    by (rule fold_lower_keys_lowered) (simp add: lowered_def)
  with a show ?thesis by (auto simp: update_conv')
qed

lemma map_result_all2:
  "map_result f xs = Inr ys \<Longrightarrow> list_all2 (\<lambda>x y. f x = Inr y) xs ys"
proof (induction xs arbitrary: ys)
  case Nil
  then show ?case by simp
next
  case (Cons x xs)
  then show ?case by (auto split: sum.splits)
qed

lemma prepare_list_map:
  assumes "prepare_list E key app = Inr app1"
  shows "\<exists>ps. map_of app1 = (map_of app)(key \<mapsto> PList (map PDict ps))"
  using assms unfolding prepare_list_def
  by (auto split: option.splits pyval.splits sum.splits simp: update_conv')

lemma prepare_dict_map:
  assumes "prepare_dict E key app = Inr app1"
  shows "\<exists>obj obj1. map_of app key = Some (PDict obj) \<and> map fst obj1 = map fst obj
           \<and> (\<forall>v\<in>set (map snd obj1). \<exists>a. v = PDict a)
           \<and> map_of app1 = (map_of app)(key \<mapsto> PDict obj1)"
proof -
  obtain obj obj1 where o: "map_of app key = Some (PDict obj)"
    and m: "map_result (\<lambda>(name, pattern).
                     case prepare_pattern E pattern of
                       Inl e \<Rightarrow> Inl e
                     | Inr attrs \<Rightarrow> Inr (name, PDict attrs)) obj = Inr obj1"
    and a: "app1 = AList.update key (PDict obj1) app"
    using assms unfolding prepare_dict_def by (auto split: option.splits pyval.splits sum.splits)
  have l: "list_all2 (\<lambda>x y. (case x of (name, pattern) \<Rightarrow>
                     case prepare_pattern E pattern of
                       Inl e \<Rightarrow> Inl e
                     | Inr attrs \<Rightarrow> Inr (name, PDict attrs)) = Inr y) obj obj1"
    using m by (rule map_result_all2)
  then have "list_all2 (\<lambda>x y. fst y = fst x \<and> (\<exists>a. snd y = PDict a)) obj obj1"
    by (rule list_all2_mono) (auto split: sum.splits)
  then have "map fst obj1 = map fst obj \<and> (\<forall>v\<in>set (map snd obj1). \<exists>a. v = PDict a)"
    by (induction obj obj1 rule: list_all2_induct) auto
  with o a show ?thesis by (auto simp: update_conv')
qed

definition prepared :: "(string \<times> 'rx pyval) list \<Rightarrow> bool" where
  "prepared app =
     ((\<forall>key\<in>set [''url'', ''html'', ''script''].
          \<exists>ps. map_of app key = Some (PList (map PDict ps)))
      \<and> (\<exists>l. map_of app ''implies'' = Some (PList l))
      \<and> (\<forall>key\<in>set [''headers'', ''meta''].
          \<exists>obj. map_of app key = Some (PDict obj) \<and> lowered obj
                \<and> (\<forall>v\<in>set (map snd obj). \<exists>a. v = PDict a)))"

lemma and_then_Inr: "and_then r f = Inr y \<longleftrightarrow> (\<exists>x. r = Inr x \<and> f x = Inr y)"
  by (cases r) (auto simp: and_then_def)

lemma lowered_same_keys: "map fst obj1 = map fst obj \<Longrightarrow> lowered obj \<Longrightarrow> lowered obj1"
  by (simp add: lowered_def)

lemma normalize_shape_map:
  assumes "normalize_shape app = Inr n"
  shows "\<exists>l1 l2 l3 l4 oh om. lowered oh \<and> lowered om \<and>
           map_of n = (map_of app)(''url'' \<mapsto> PList l1, ''html'' \<mapsto> PList l2,
                        ''script'' \<mapsto> PList l3, ''implies'' \<mapsto> PList l4,
                        ''headers'' \<mapsto> PDict oh, ''meta'' \<mapsto> PDict om)"
proof -
  define a1 where "a1 = ensure_list ''url'' app"
  define a2 where "a2 = ensure_list ''html'' a1"
  define a3 where "a3 = ensure_list ''script'' a2"
  define a4 where "a4 = ensure_list ''implies'' a3"
  define a5 where "a5 = ensure_dict ''headers'' a4"
  define a6 where "a6 = ensure_dict ''meta'' a5"
  from assms obtain a7 a8 where
    s7: "ensure_meta a6 = Inr a7" and s8: "lower_keys ''headers'' a7 = Inr a8"
    and s9: "lower_keys ''meta'' a8 = Inr n"
    unfolding normalize_shape_def and_then_Inr a1_def a2_def a3_def a4_def a5_def a6_def
    by auto
  obtain l1 where m1: "map_of a1 = (map_of app)(''url'' \<mapsto> PList l1)"
    unfolding a1_def using ensure_list_map by blast
  obtain l2 where m2: "map_of a2 = (map_of a1)(''html'' \<mapsto> PList l2)"
    unfolding a2_def using ensure_list_map by blast
  obtain l3 where m3: "map_of a3 = (map_of a2)(''script'' \<mapsto> PList l3)"
    unfolding a3_def using ensure_list_map by blast
  obtain l4 where m4: "map_of a4 = (map_of a3)(''implies'' \<mapsto> PList l4)"
    unfolding a4_def using ensure_list_map by blast
  obtain v5 where m5: "map_of a5 = (map_of a4)(''headers'' \<mapsto> v5)"
    unfolding a5_def using ensure_dict_map by blast
  obtain v6 where m6: "map_of a6 = (map_of a5)(''meta'' \<mapsto> v6)"
    unfolding a6_def using ensure_dict_map by blast
  obtain d7 where m7: "map_of a7 = (map_of a6)(''meta'' \<mapsto> PDict d7)"
    using ensure_meta_map[OF s7] by blast
  obtain oh where m8: "lowered oh" "map_of a8 = (map_of a7)(''headers'' \<mapsto> PDict oh)"
    using lower_keys_map[OF s8] by blast
  obtain om where m9: "lowered om" "map_of n = (map_of a8)(''meta'' \<mapsto> PDict om)"
    using lower_keys_map[OF s9] by blast
  have "map_of n = (map_of app)(''url'' \<mapsto> PList l1, ''html'' \<mapsto> PList l2,
                        ''script'' \<mapsto> PList l3, ''implies'' \<mapsto> PList l4,
                        ''headers'' \<mapsto> PDict oh, ''meta'' \<mapsto> PDict om)"
    unfolding m9 m8 m7 m6 m5 m4 m3 m2 m1 by (rule ext) simp
  with m8(1) m9(1) show ?thesis by blast
qed

lemma compile_patterns_map:
  assumes "compile_patterns E n = Inr app1"
    and "map_of n ''headers'' = Some (PDict oh)" and "map_of n ''meta'' = Some (PDict om)"
  shows "\<exists>p1 p2 p3 oh1 om1.
           map fst oh1 = map fst oh \<and> (\<forall>v\<in>set (map snd oh1). \<exists>a. v = PDict a) \<and>
           map fst om1 = map fst om \<and> (\<forall>v\<in>set (map snd om1). \<exists>a. v = PDict a) \<and>
           map_of app1 = (map_of n)(''url'' \<mapsto> PList (map PDict p1),
                           ''html'' \<mapsto> PList (map PDict p2),
                           ''script'' \<mapsto> PList (map PDict p3),
                           ''headers'' \<mapsto> PDict oh1, ''meta'' \<mapsto> PDict om1)"
proof -
  from assms(1) obtain b1 b2 b3 b4 where
    s1: "prepare_list E ''url'' n = Inr b1" and s2: "prepare_list E ''html'' b1 = Inr b2"
    and s3: "prepare_list E ''script'' b2 = Inr b3" and s4: "prepare_dict E ''headers'' b3 = Inr b4"
    and s5: "prepare_dict E ''meta'' b4 = Inr app1"
    unfolding compile_patterns_def and_then_Inr by auto
  obtain p1 where m1: "map_of b1 = (map_of n)(''url'' \<mapsto> PList (map PDict p1))"
    using prepare_list_map[OF s1] by blast
  obtain p2 where m2: "map_of b2 = (map_of b1)(''html'' \<mapsto> PList (map PDict p2))"
    using prepare_list_map[OF s2] by blast
  obtain p3 where m3: "map_of b3 = (map_of b2)(''script'' \<mapsto> PList (map PDict p3))"
    using prepare_list_map[OF s3] by blast
  obtain oh0 oh1 where m4: "map_of b3 ''headers'' = Some (PDict oh0)" "map fst oh1 = map fst oh0"
      "\<forall>v\<in>set (map snd oh1). \<exists>a. v = PDict a"
      "map_of b4 = (map_of b3)(''headers'' \<mapsto> PDict oh1)"
    using prepare_dict_map[OF s4] by blast
  obtain om0 om1 where m5: "map_of b4 ''meta'' = Some (PDict om0)" "map fst om1 = map fst om0"
      "\<forall>v\<in>set (map snd om1). \<exists>a. v = PDict a"
      "map_of app1 = (map_of b4)(''meta'' \<mapsto> PDict om1)"
    using prepare_dict_map[OF s5] by blast
  have "oh0 = oh" using m4(1) assms(2) unfolding m3 m2 m1 by simp
  moreover have "om0 = om" using m5(1) assms(3) unfolding m4(4) m3 m2 m1 by simp
  moreover have "map_of app1 = (map_of n)(''url'' \<mapsto> PList (map PDict p1),
                           ''html'' \<mapsto> PList (map PDict p2),
                           ''script'' \<mapsto> PList (map PDict p3),
                           ''headers'' \<mapsto> PDict oh1, ''meta'' \<mapsto> PDict om1)"
    unfolding m5(4) m4(4) m3 m2 m1 by (rule ext) simp
  ultimately show ?thesis using m4(2,3) m5(2,3) by blast
qed

lemma prepare_app_prepared:
  assumes "prepare_app E app = Inr app1"
  shows "prepared app1"
proof -
  from assms obtain n where n: "normalize_shape app = Inr n" and c: "compile_patterns E n = Inr app1"
    unfolding prepare_app_def and_then_Inr by auto
  from normalize_shape_map[OF n] obtain l1 l2 l3 l4 oh om where
    lo: "lowered oh" "lowered om" and
    mn: "map_of n = (map_of app)(''url'' \<mapsto> PList l1, ''html'' \<mapsto> PList l2,
                        ''script'' \<mapsto> PList l3, ''implies'' \<mapsto> PList l4,
                        ''headers'' \<mapsto> PDict oh, ''meta'' \<mapsto> PDict om)"
    by blast
  have h: "map_of n ''headers'' = Some (PDict oh)" and m: "map_of n ''meta'' = Some (PDict om)"
    and i: "map_of n ''implies'' = Some (PList l4)"
    unfolding mn by simp_all
  from compile_patterns_map[OF c h m] obtain p1 p2 p3 oh1 om1 where
    k: "map fst oh1 = map fst oh" "\<forall>v\<in>set (map snd oh1). \<exists>a. v = PDict a"
       "map fst om1 = map fst om" "\<forall>v\<in>set (map snd om1). \<exists>a. v = PDict a"
    and ma: "map_of app1 = (map_of n)(''url'' \<mapsto> PList (map PDict p1),
                           ''html'' \<mapsto> PList (map PDict p2),
                           ''script'' \<mapsto> PList (map PDict p3),
                           ''headers'' \<mapsto> PDict oh1, ''meta'' \<mapsto> PDict om1)"
    by blast
  have l1: "lowered oh1" using k(1) lo(1) by (rule lowered_same_keys)
  have l2: "lowered om1" using k(3) lo(2) by (rule lowered_same_keys)
  have "map_of app1 ''url'' = Some (PList (map PDict p1))"
    "map_of app1 ''html'' = Some (PList (map PDict p2))"
    "map_of app1 ''script'' = Some (PList (map PDict p3))"
    "map_of app1 ''implies'' = Some (PList l4)"
    "map_of app1 ''headers'' = Some (PDict oh1)"
    "map_of app1 ''meta'' = Some (PDict om1)"
    unfolding ma using i by simp_all
  then show ?thesis unfolding prepared_def using l1 l2 k(2,4) by auto
qed

lemma ensure_list_same: "map_of app key = Some (PList l) \<Longrightarrow> ensure_list key app = app"
  by (simp add: ensure_list_def)

lemma ensure_dict_same: "map_of app key = Some v \<Longrightarrow> ensure_dict key app = app"
  by (simp add: ensure_dict_def)

lemma ensure_meta_same: "map_of app ''meta'' = Some (PDict d) \<Longrightarrow> ensure_meta app = Inr app"
  by (simp add: ensure_meta_def)

lemma lower_keys_same:
  assumes "map_of app key = Some (PDict obj)" and "lowered obj"
  shows "lower_keys key app = Inr app"
proof -
  have "fold (\<lambda>(k, v) d. AList.update (py_lower k) v d) obj [] = [] @ obj"
    by (rule fold_lower_keys_same) (simp add: assms(2))
  then show ?thesis using assms(1) by (simp add: lower_keys_def update_triv)
qed

lemma prepare_pattern_dict: "prepare_pattern E (PDict a) = Inl AttributeError"
  by (simp add: prepare_pattern_def)

lemma prepare_list_again:
  assumes "map_of app key = Some (PList (map PDict ps))"
  shows "prepare_list E key app = (if ps = [] then Inr app else Inl AttributeError)"
proof (cases ps)
  case Nil
  with assms show ?thesis by (simp add: prepare_list_def update_triv)
next
  case (Cons a as)
  with assms show ?thesis by (simp add: prepare_list_def prepare_pattern_dict)
qed

lemma prepare_dict_again:
  assumes "map_of app key = Some (PDict obj)" and "\<forall>v\<in>set (map snd obj). \<exists>a. v = PDict a"
  shows "prepare_dict E key app = (if obj = [] then Inr app else Inl AttributeError)"
proof (cases obj)
  case Nil
  with assms show ?thesis by (simp add: prepare_dict_def update_triv)
next
  case (Cons x xs)
  obtain name a where "x = (name, PDict a)" using assms(2) Cons by (cases x) auto
  with assms(1) Cons show ?thesis by (simp add: prepare_dict_def prepare_pattern_dict)
qed

lemma normalize_shape_prepared:
  assumes "prepared app"
  shows "normalize_shape app = Inr app"
proof -
  from assms obtain p1 p2 p3 l oh om where
    f: "map_of app ''url'' = Some (PList (map PDict p1))"
       "map_of app ''html'' = Some (PList (map PDict p2))"
       "map_of app ''script'' = Some (PList (map PDict p3))"
       "map_of app ''implies'' = Some (PList l)"
       "map_of app ''headers'' = Some (PDict oh)" "lowered oh"
       "map_of app ''meta'' = Some (PDict om)" "lowered om"
    unfolding prepared_def by auto
  show ?thesis
    unfolding normalize_shape_def
    by (simp add: ensure_list_same[OF f(1)] ensure_list_same[OF f(2)] ensure_list_same[OF f(3)]
        ensure_list_same[OF f(4)] ensure_dict_same[OF f(5)] ensure_dict_same[OF f(7)]
        ensure_meta_same[OF f(7)] lower_keys_same[OF f(5) f(6)] lower_keys_same[OF f(7) f(8)]
        and_then_def)
qed

lemma compile_patterns_prepared:
  assumes "prepared app"
  shows "compile_patterns E app = (if has_pattern app then Inl AttributeError else Inr app)"
proof -
  from assms obtain p1 p2 p3 oh om where
    f: "map_of app ''url'' = Some (PList (map PDict p1))"
       "map_of app ''html'' = Some (PList (map PDict p2))"
       "map_of app ''script'' = Some (PList (map PDict p3))"
       "map_of app ''headers'' = Some (PDict oh)" "\<forall>v\<in>set (map snd oh). \<exists>a. v = PDict a"
       "map_of app ''meta'' = Some (PDict om)" "\<forall>v\<in>set (map snd om). \<exists>a. v = PDict a"
    unfolding prepared_def by auto
  have hp: "has_pattern app = (p1 \<noteq> [] \<or> p2 \<noteq> [] \<or> p3 \<noteq> [] \<or> oh \<noteq> [] \<or> om \<noteq> [])"
    by (simp add: has_pattern_def facet_size_def f(1,2,3,4,6))
  show ?thesis
    unfolding compile_patterns_def hp
    by (simp add: prepare_list_again[OF f(1)] prepare_list_again[OF f(2)]
        prepare_list_again[OF f(3)] prepare_dict_again[OF f(4,5)] prepare_dict_again[OF f(6,7)]
        and_then_def)
qed

lemma prepare_app_again:
  assumes "prepare_app E app = Inr app1"
  shows "normalize_shape app1 = Inr app1
       \<and> prepare_app E app1 = (if has_pattern app1 then Inl AttributeError else Inr app1)"
proof -
  have p: "prepared app1" using assms by (rule prepare_app_prepared)
  show ?thesis
    unfolding prepare_app_def
    by (simp add: normalize_shape_prepared[OF p] compile_patterns_prepared[OF p] and_then_def)
qed

text \<open>
  C7, as stated, fails for every entry with a pattern: \<^verbatim>\<open>_prepare_pattern\<close> splits
  its argument, which the first run has replaced by a dictionary, and a dictionary
  has no \<^verbatim>\<open>split\<close>.
\<close>

theorem prepare_twice_counterexample:
  "prepare_app example_re c7_raw = Inr c7_prepared
   \<and> prepare_app example_re c7_prepared = Inl AttributeError
   \<and> and_then (prepare_app example_re c7_raw) (prepare_app example_re)
       \<noteq> prepare_app example_re c7_raw"
  by code_simp

text \<open>
  C7, amended.  On an entry that \<^verbatim>\<open>_prepare_app\<close> has prepared, the steps that bring
  the entry into shape (lists for \<^verbatim>\<open>url\<close>, \<^verbatim>\<open>html\<close>, \<^verbatim>\<open>script\<close>, \<^verbatim>\<open>implies\<close>;
  dictionaries for \<^verbatim>\<open>headers\<close> and \<^verbatim>\<open>meta\<close>; lower-case keys) change nothing.  The
  whole of \<^verbatim>\<open>_prepare_app\<close> returns the same entry when no facet has a pattern, and
  raises \<^verbatim>\<open>AttributeError\<close> when one has.
\<close>

theorem prepare_twice:
  assumes "prepare_app E app = Inr app1"
  shows "normalize_shape app1 = Inr app1
       \<and> prepare_app E app1 = (if has_pattern app1 then Inl AttributeError else Inr app1)"
  using assms by (rule prepare_app_again)

theorem prepare_twice_witness:
  "prepare_app example_re c7_raw = Inr c7_prepared
   \<and> normalize_shape c7_prepared = Inr c7_prepared
   \<and> has_pattern c7_prepared
   \<and> prepare_app example_re c7_prepared = Inl AttributeError
   \<and> prepare_app example_re c7_plain = Inr c7_plain_prepared
   \<and> \<not> has_pattern c7_plain_prepared
   \<and> prepare_app example_re c7_plain_prepared = Inr c7_plain_prepared"
proof -
  have r1: "prepare_app example_re c7_raw = Inr c7_prepared" by code_simp
  have r2: "prepare_app example_re c7_plain = Inr c7_plain_prepared" by code_simp
  have h1: "has_pattern c7_prepared" by code_simp
  have h2: "\<not> has_pattern c7_plain_prepared" by code_simp
  from prepare_twice[OF r1] prepare_twice[OF r2] r1 r2 h1 h2 show ?thesis by simp
qed

section \<open>The confidence total (C3)\<close>




section \<open>Which matches put a name into the result (C2)\<close>










end
